theory Spec2Isabelle
  imports Complex_Main "HOL-Library.AList" "HOL-Library.Multiset"
begin

section \<open>Data model\<close>

text \<open>
  Payloads, node configuration and collaborator responses are untyped in the source
  (\<^verbatim>\<open>any\<close>). They are modelled as JSON-like values. Numbers are the finite
  numbers of JSON text (rationals, compared exactly); \<^verbatim>\<open>NaN\<close> only arises as the
  result of a failed conversion and is written \<open>None\<close> where it can occur. Objects are
  association lists in insertion order, read with \<open>map_of\<close>. Strings are lists of
  characters; their case fold belongs to the runtime and is a parameter.
\<close>

datatype json =
    JUndefined
  | JNull
  | JBool bool
  | JNum rat
  | JStr string
  | JArr "json list"
  | JObj "(string \<times> json) list"

text \<open>
  A thrown value: an \<^verbatim>\<open>Error\<close> instance with its message, a \<^verbatim>\<open>TypeError\<close> raised by
  the runtime (reading a property of \<^verbatim>\<open>null\<close>, calling a non-function, iterating a
  non-iterable), or a thrown value that is not an \<^verbatim>\<open>Error\<close> instance.
\<close>

datatype js_error = Error string | TypeError | Thrown json

text \<open>
  Modelled from the spec: the declaration of \<^verbatim>\<open>WorkflowNode\<close>
  (\<^verbatim>\<open>@/types/WorkflowTypes\<close>) is not among the sources. The fields are the ones the
  engine reads: \<^verbatim>\<open>id\<close>, \<^verbatim>\<open>type\<close>, \<^verbatim>\<open>label\<close>, \<^verbatim>\<open>config\<close> (an open mapping of options)
  and \<^verbatim>\<open>connected\<close> (the ordered downstream node ids). The fields \<^verbatim>\<open>id\<close> and \<^verbatim>\<open>type\<close> are
  written \<open>node_id\<close> and \<open>node_type\<close>.
\<close>

record WorkflowNode =
  node_id :: string
  node_type :: string
  label :: string
  config :: "(string \<times> json) list"
  connected :: "string list"

section \<open>Graph ordering: \<^verbatim>\<open>topologicalSort\<close>\<close>

text \<open>
  The three mutable locals of \<^verbatim>\<open>topologicalSort\<close>: the output list \<^verbatim>\<open>sorted\<close> and the
  sets \<^verbatim>\<open>visited\<close> and \<^verbatim>\<open>visiting\<close>.
\<close>

record sort_state =
  sorted_nodes :: "WorkflowNode list"
  visited :: "string set"
  visiting :: "string set"

definition circular :: js_error where
  "circular = Error ''Circular dependency detected in workflow''"

text \<open>
  The closure \<^verbatim>\<open>visit\<close> recurses without a bound in the source. The model counts the
  recursion depth down from a fuel argument; \<open>None\<close> means that the fuel ran out.
  \<open>visit_connected\<close> is the loop \<^verbatim>\<open>for (const connectedId of node.connected)\<close>. A thrown
  error leaves through \<open>Inl\<close> and discards the locals.
\<close>

fun visit :: "nat \<Rightarrow> WorkflowNode list \<Rightarrow> string \<Rightarrow> sort_state \<Rightarrow> (js_error + sort_state) option"
  and visit_connected :: "nat \<Rightarrow> WorkflowNode list \<Rightarrow> string list \<Rightarrow> sort_state \<Rightarrow> (js_error + sort_state) option"
where
  "visit 0 nodes nodeId st = None"
| "visit (Suc n) nodes nodeId st =
     (if nodeId \<in> visiting st then Some (Inl circular)
      else if nodeId \<in> visited st then Some (Inr st)
      else
        let st1 = st\<lparr>visiting := insert nodeId (visiting st)\<rparr> in
        (case find (\<lambda>m. node_id m = nodeId) nodes of
           None \<Rightarrow> Some (Inr (st1\<lparr>visiting := visiting st1 - {nodeId}\<rparr>))
         | Some node \<Rightarrow>
             (case visit_connected n nodes (connected node) st1 of
                None \<Rightarrow> None
              | Some (Inl e) \<Rightarrow> Some (Inl e)
              | Some (Inr st2) \<Rightarrow>
                  Some (Inr (st2\<lparr>sorted_nodes := sorted_nodes st2 @ [node],
                                  visited := insert nodeId (visited st2),
                                  visiting := visiting st2 - {nodeId}\<rparr>)))))"
| "visit_connected n nodes [] st = Some (Inr st)"
| "visit_connected n nodes (connectedId # rest) st =
     (case visit n nodes connectedId st of
        None \<Rightarrow> None
      | Some (Inl e) \<Rightarrow> Some (Inl e)
      | Some (Inr st') \<Rightarrow> visit_connected n nodes rest st')"

text \<open>The loop \<^verbatim>\<open>for (const trigger of triggerNodes) visit(trigger.id)\<close>.\<close>

fun visit_triggers :: "nat \<Rightarrow> WorkflowNode list \<Rightarrow> WorkflowNode list \<Rightarrow> sort_state \<Rightarrow> (js_error + sort_state) option" where
  "visit_triggers n nodes [] st = Some (Inr st)"
| "visit_triggers n nodes (trigger # rest) st =
     (case visit n nodes (node_id trigger) st of
        None \<Rightarrow> None
      | Some (Inl e) \<Rightarrow> Some (Inl e)
      | Some (Inr st') \<Rightarrow> visit_triggers n nodes rest st')"

text \<open>The loop \<^verbatim>\<open>for (const node of nodes) if (!visited.has(node.id)) visit(node.id)\<close>.\<close>

fun visit_remaining :: "nat \<Rightarrow> WorkflowNode list \<Rightarrow> WorkflowNode list \<Rightarrow> sort_state \<Rightarrow> (js_error + sort_state) option" where
  "visit_remaining n nodes [] st = Some (Inr st)"
| "visit_remaining n nodes (node # rest) st =
     (if node_id node \<notin> visited st then
        (case visit n nodes (node_id node) st of
           None \<Rightarrow> None
         | Some (Inl e) \<Rightarrow> Some (Inl e)
         | Some (Inr st') \<Rightarrow> visit_remaining n nodes rest st')
      else visit_remaining n nodes rest st)"

definition topologicalSort_fuel :: "nat \<Rightarrow> WorkflowNode list \<Rightarrow> (js_error + WorkflowNode list) option" where
  "topologicalSort_fuel n nodes =
     (let triggerNodes = filter (\<lambda>m. node_type m = ''trigger'') nodes in
      case visit_triggers n nodes triggerNodes \<lparr>sorted_nodes = [], visited = {}, visiting = {}\<rparr> of
        None \<Rightarrow> None
      | Some (Inl e) \<Rightarrow> Some (Inl e)
      | Some (Inr st1) \<Rightarrow>
          (case visit_remaining n nodes nodes st1 of
             None \<Rightarrow> None
           | Some (Inl e) \<Rightarrow> Some (Inl e)
           | Some (Inr st2) \<Rightarrow> Some (Inr (sorted_nodes st2))))"

text \<open>
  The recursion never gets deeper than the number of nodes plus one (each level adds a
  found id to \<^verbatim>\<open>visiting\<close>), so this much fuel always suffices and more fuel
  changes nothing: see \<open>topologicalSort_total\<close> and \<open>topologicalSort_fuel_enough\<close> below.
\<close>

definition topologicalSort :: "WorkflowNode list \<Rightarrow> (js_error + WorkflowNode list) option" where
  "topologicalSort nodes = topologicalSort_fuel (Suc (length nodes)) nodes"


section \<open>JavaScript values and operators used by the engine\<close>

text \<open>Truthiness, and \<^verbatim>\<open>a || b\<close> when \<^verbatim>\<open>b\<close> cannot throw.\<close>

fun truthy :: "json \<Rightarrow> bool" where
  "truthy JUndefined = False"
| "truthy JNull = False"
| "truthy (JBool b) = b"
| "truthy (JNum r) = (r \<noteq> 0)"
| "truthy (JStr s) = (s \<noteq> [])"
| "truthy (JArr xs) = True"
| "truthy (JObj kvs) = True"

definition js_or :: "json \<Rightarrow> json \<Rightarrow> json" where
  "js_or a b = (if truthy a then a else b)"

fun nullish :: "json \<Rightarrow> bool" where
  "nullish JUndefined = True"
| "nullish JNull = True"
| "nullish v = False"

text \<open>
  The property read \<^verbatim>\<open>v.k\<close>. It throws on \<^verbatim>\<open>null\<close> and \<^verbatim>\<open>undefined\<close>, looks the
  key up in an object, and is \<^verbatim>\<open>undefined\<close> on every other value: the engine reads only
  names (\<^verbatim>\<open>title\<close>, \<^verbatim>\<open>content\<close>, \<^verbatim>\<open>articles\<close>, ...) that no string, number, boolean or
  array inherits.
\<close>

fun get :: "json \<Rightarrow> string \<Rightarrow> js_error + json" where
  "get JUndefined k = Inl TypeError"
| "get JNull k = Inl TypeError"
| "get (JObj kvs) k = Inr (case map_of kvs k of Some v \<Rightarrow> v | None \<Rightarrow> JUndefined)"
| "get v k = Inr JUndefined"

text \<open>\<^verbatim>\<open>node.config.k\<close>: the configuration is a mapping, so the read cannot throw.\<close>

definition cfg :: "WorkflowNode \<Rightarrow> string \<Rightarrow> json" where
  "cfg node k = (case map_of (config node) k of Some v \<Rightarrow> v | None \<Rightarrow> JUndefined)"

text \<open>Sequencing of a computation that may throw.\<close>

definition bind :: "js_error + 'a \<Rightarrow> ('a \<Rightarrow> js_error + 'b) \<Rightarrow> js_error + 'b" where
  "bind m f = (case m of Inl e \<Rightarrow> Inl e | Inr v \<Rightarrow> f v)"

fun map_result :: "('a \<Rightarrow> js_error + 'b) \<Rightarrow> 'a list \<Rightarrow> js_error + 'b list" where
  "map_result f [] = Inr []"
| "map_result f (x # xs) =
     (case f x of
        Inl e \<Rightarrow> Inl e
      | Inr y \<Rightarrow> (case map_result f xs of Inl e \<Rightarrow> Inl e | Inr ys \<Rightarrow> Inr (y # ys)))"

text \<open>Decimal digits of an array index, as a template literal prints it.\<close>

definition digit_char :: "nat \<Rightarrow> char" where
  "digit_char d = char_of (48 + d)"

function show_nat :: "nat \<Rightarrow> string" where
  "show_nat n = (if n < 10 then [digit_char n] else show_nat (n div 10) @ [digit_char (n mod 10)])"
  by pat_completeness auto
termination
  by (relation "measure (\<lambda>n. n)") auto

text \<open>
  Object spread \<^verbatim>\<open>{...v}\<close>: the own enumerable properties of \<^verbatim>\<open>v\<close>. Arrays and strings
  spread to index keys, other primitives to nothing. \<open>set_prop\<close> is a later key of the
  object literal: it overwrites in place or appends.
\<close>

definition index_keys :: "json list \<Rightarrow> (string \<times> json) list" where
  "index_keys xs = map (\<lambda>(i, x). (show_nat i, x)) (enumerate 0 xs)"

fun spread :: "json \<Rightarrow> (string \<times> json) list" where
  "spread (JObj kvs) = kvs"
| "spread (JArr xs) = index_keys xs"
| "spread (JStr s) = index_keys (map (\<lambda>c. JStr [c]) s)"
| "spread v = []"

definition set_prop :: "string \<Rightarrow> json \<Rightarrow> (string \<times> json) list \<Rightarrow> (string \<times> json) list" where
  "set_prop k v kvs = AList.update k v kvs"

text \<open>
  \<^verbatim>\<open>String.prototype.includes\<close>: the text \<open>t\<close> occurs in the text \<open>s\<close> as a contiguous
  part.
\<close>

fun str_includes :: "string \<Rightarrow> string \<Rightarrow> bool" where
  "str_includes [] t = (t = [])"
| "str_includes (c # s) t = (take (length t) (c # s) = t \<or> str_includes s t)"

section \<open>The outside world\<close>

text \<open>
  The engine talks to remote functions (\<^verbatim>\<open>supabase.functions.invoke\<close>), to the table
  \<^verbatim>\<open>workflow_executions\<close>, to the clock and to the random source. None of them is part
  of the sources; each is a parameter acting on an abstract world \<open>'w\<close>. The client
  resolves to a pair \<^verbatim>\<open>{data, error}\<close> and does not reject: \<open>Inl\<close> stands for a truthy
  \<^verbatim>\<open>error\<close>, \<open>Inr\<close> for the \<^verbatim>\<open>data\<close> of a call without error. The parts of the runtime
  that the model does not spell out are parameters as well: the text of a date
  (\<^verbatim>\<open>toISOString\<close>), the time value of \<^verbatim>\<open>new Date(v)\<close> (\<open>None\<close> for an invalid date), the
  string conversion of a non-string value in a template literal (it throws a
  \<^verbatim>\<open>TypeError\<close> on an object without a callable \<^verbatim>\<open>toString\<close> or \<^verbatim>\<open>valueOf\<close>), the
  relational comparison \<^verbatim>\<open><=\<close> of two operands that are not both numbers, and the case
  fold \<^verbatim>\<open>String.prototype.toLowerCase\<close>, which follows the Unicode case mappings.
\<close>

datatype exec_status = Pending | Running | Completed | Failed

record WorkflowExecution =
  exec_id :: string
  workflow_rule_id :: string
  suggestion_id :: string
  status :: exec_status
  started_at :: string
  completed_at :: "string option"
  result :: "json option"
  error_message :: "string option"

record WorkflowExecutionContext =
  executionId :: string
  data :: json
  metadata :: "(string \<times> json) list"

text \<open>
  In \<open>WorkflowExecution\<close> the field \<^verbatim>\<open>id\<close> is written \<open>exec_id\<close>. \<open>exec_fields\<close> is the
  object literal passed to \<^verbatim>\<open>insert\<close> or \<^verbatim>\<open>update\<close>: a key is present or not.
\<close>

record exec_fields =
  f_workflow_rule_id :: "string option"
  f_suggestion_id :: "string option"
  f_status :: "exec_status option"
  f_started_at :: "string option"
  f_completed_at :: "string option"
  f_result :: "json option"
  f_error_message :: "string option"

datatype store_op = Insert exec_fields | Update string exec_fields

record 'w env =
  invoke :: "string \<Rightarrow> json \<Rightarrow> 'w \<Rightarrow> (js_error + json) \<times> 'w"
  db_insert :: "exec_fields \<Rightarrow> 'w \<Rightarrow> (js_error + WorkflowExecution) \<times> 'w"
  db_update :: "string \<Rightarrow> exec_fields \<Rightarrow> 'w \<Rightarrow> 'w"
  randomUUID :: "'w \<Rightarrow> string \<times> 'w"
  now :: "'w \<Rightarrow> int"
  toISOString :: "int \<Rightarrow> string"
  date_value :: "json \<Rightarrow> int option"
  to_string :: "json \<Rightarrow> js_error + string"
  toLowerCase :: "string \<Rightarrow> string"
  le_coerced :: "json \<Rightarrow> json \<Rightarrow> bool"

text \<open>
  The state of a run: the world, and a record of what the engine asked of it, in order:
  the remote calls (name and body) and the writes to the execution table.
\<close>

record 'w state =
  world :: 'w
  calls :: "(string \<times> json) list"
  store_log :: "store_op list"

definition call :: "'w env \<Rightarrow> string \<Rightarrow> json \<Rightarrow> 'w state \<Rightarrow> (js_error + json) \<times> 'w state" where
  "call env name body st =
     (let (r, w') = invoke env name body (world st)
      in (r, st\<lparr>world := w', calls := calls st @ [(name, body)]\<rparr>))"

definition template_str :: "'w env \<Rightarrow> json \<Rightarrow> js_error + string" where
  "template_str env v = (case v of JStr s \<Rightarrow> Inr s | _ \<Rightarrow> to_string env v)"

text \<open>\<^verbatim>\<open>a <= b\<close> and \<^verbatim>\<open>a >= b\<close> on values; exact on two numbers.\<close>

definition js_le :: "'w env \<Rightarrow> json \<Rightarrow> json \<Rightarrow> bool" where
  "js_le env a b = (case (a, b) of (JNum x, JNum y) \<Rightarrow> x \<le> y | _ \<Rightarrow> le_coerced env a b)"

definition js_ge :: "'w env \<Rightarrow> json \<Rightarrow> json \<Rightarrow> bool" where
  "js_ge env a b = js_le env b a"

text \<open>
  \<^verbatim>\<open>d1 <= d2\<close> on two \<^verbatim>\<open>Date\<close> objects compares their time values; with an invalid date
  (\<^verbatim>\<open>NaN\<close>) on either side every comparison is false.
\<close>

definition date_le :: "int option \<Rightarrow> int option \<Rightarrow> bool" where
  "date_le a b = (case (a, b) of (Some x, Some y) \<Rightarrow> x \<le> y | _ \<Rightarrow> False)"

definition date_ge :: "int option \<Rightarrow> int option \<Rightarrow> bool" where
  "date_ge a b = (case (a, b) of (Some x, Some y) \<Rightarrow> x \<ge> y | _ \<Rightarrow> False)"


section \<open>Node handlers\<close>

text \<open>\<^verbatim>\<open>executeTriggerNode\<close>: the payload passes through.\<close>

definition executeTriggerNode :: "WorkflowNode \<Rightarrow> WorkflowExecutionContext \<Rightarrow> js_error + json" where
  "executeTriggerNode node context = Inr (data context)"

text \<open>
  The test \<^verbatim>\<open>xs.length === 0\<close> followed by \<^verbatim>\<open>xs.map(f)\<close> on a truthy value: an array is
  mapped, an object whose own \<^verbatim>\<open>length\<close> is \<^verbatim>\<open>0\<close> returns the empty list, and anything
  else has no callable \<^verbatim>\<open>map\<close>.
\<close>

definition map_unless_empty :: "(json \<Rightarrow> js_error + json) \<Rightarrow> json \<Rightarrow> js_error + json" where
  "map_unless_empty f v =
     (case v of
        JArr xs \<Rightarrow> (if length xs = 0 then Inr (JArr []) else bind (map_result f xs) (\<lambda>ys. Inr (JArr ys)))
      | JObj kvs \<Rightarrow> (if map_of kvs ''length'' = Some (JNum 0) then Inr (JArr []) else Inl TypeError)
      | _ \<Rightarrow> Inl TypeError)"

definition executeNewsDiscoveryNode ::
  "'w env \<Rightarrow> WorkflowNode \<Rightarrow> WorkflowExecutionContext \<Rightarrow> 'w state \<Rightarrow> (js_error + json) \<times> 'w state" where
  "executeNewsDiscoveryNode env node context st =
     (let nowMs = now env (world st);
          timeRange = cfg node ''timeRange'';
          fromDate =
            (if timeRange = JStr ''custom'' then cfg node ''fromDate''
             else if timeRange = JStr ''hour'' then JStr (toISOString env (nowMs - 60 * 60 * 1000))
             else if timeRange = JStr ''day'' then JStr (toISOString env (nowMs - 24 * 60 * 60 * 1000))
             else if timeRange = JStr ''week'' then JStr (toISOString env (nowMs - 7 * 24 * 60 * 60 * 1000))
             else if timeRange = JStr ''month'' then JStr (toISOString env (nowMs - 30 * 24 * 60 * 60 * 1000))
             else JUndefined);
          toDate = (if timeRange = JStr ''custom'' then cfg node ''toDate'' else JUndefined);
          body = JObj
            [(''keywords'', js_or (cfg node ''keywords'') (JArr [JStr ''AI'', JStr ''technology''])),
             (''source'', js_or (js_or (cfg node ''source'') (cfg node ''sources'')) (JStr ''all'')),
             (''maxResults'', js_or (cfg node ''maxResults'') (JNum 10)),
             (''timeRange'', js_or (cfg node ''timeRange'') (JStr ''day'')),
             (''fromDate'', fromDate),
             (''toDate'', toDate),
             (''saveToQueue'', JBool True)];
          (r, st1) = call env ''news-discovery'' body st
      in (bind r (\<lambda>resp.
          bind (get resp ''articles'') (\<lambda>a.
            map_unless_empty
              (\<lambda>article. Inr (JObj
                 (set_prop ''execution_context'' (JStr (executionId context))
                   (set_prop ''source_type'' (JStr ''news_discovery'') (spread article)))))
              (js_or a (JArr [])))), st1))"

definition executeRssAggregatorNode ::
  "'w env \<Rightarrow> WorkflowNode \<Rightarrow> WorkflowExecutionContext \<Rightarrow> 'w state \<Rightarrow> (js_error + json) \<times> 'w state" where
  "executeRssAggregatorNode env node context st =
     (let body = JObj
            [(''feeds'', js_or (cfg node ''feeds'') (JArr [])),
             (''maxItemsPerFeed'', js_or (cfg node ''maxItemsPerFeed'') (JNum 5))];
          (r, st1) = call env ''rss-aggregator'' body st
      in (bind r (\<lambda>resp.
          bind (get resp ''items'') (\<lambda>i.
            case js_or i (JArr []) of
              JArr xs \<Rightarrow> Inr (JArr (map (\<lambda>item. JObj
                 (set_prop ''execution_context'' (JStr (executionId context))
                   (set_prop ''source_type'' (JStr ''rss'') (spread item)))) xs))
            | _ \<Rightarrow> Inl TypeError)), st1))"

definition scholar_paper :: "'w env \<Rightarrow> 'w \<Rightarrow> WorkflowExecutionContext \<Rightarrow> json \<Rightarrow> js_error + json" where
  "scholar_paper env w context paper =
     bind (get paper ''title'') (\<lambda>title.
     bind (get paper ''abstract'') (\<lambda>abstract.
     bind (get paper ''url'') (\<lambda>url.
     bind (get paper ''authors'') (\<lambda>authors.
     bind (get paper ''citations'') (\<lambda>citations.
     bind (get paper ''venue'') (\<lambda>venue.
       Inr (JObj
         [(''title'', title),
          (''content'', js_or abstract (JStr [])),
          (''description'', js_or abstract (JStr [])),
          (''url'', js_or url (JStr [])),
          (''source_type'', JStr ''academic''),
          (''source_url'', js_or url (JStr [])),
          (''published_date'', JStr (toISOString env (now env w))),
          (''authors'', (case authors of JArr xs \<Rightarrow> authors | _ \<Rightarrow> JArr [])),
          (''citations'', js_or citations (JNum 0)),
          (''venue'', js_or venue (JStr [])),
          (''execution_context'', JStr (executionId context))])))))))"

definition executeGoogleScholarNode ::
  "'w env \<Rightarrow> WorkflowNode \<Rightarrow> WorkflowExecutionContext \<Rightarrow> 'w state \<Rightarrow> (js_error + json) \<times> 'w state" where
  "executeGoogleScholarNode env node context st =
     (case (if truthy (cfg node ''query'') then Inr (cfg node ''query'')
            else bind (get (data context) ''keywords'') (\<lambda>k. Inr (js_or k (JStr ''AI research'')))) of
        Inl e \<Rightarrow> (Inl e, st)
      | Inr query \<Rightarrow>
          (let body = JObj
                 [(''query'', query),
                  (''maxResults'', js_or (cfg node ''maxResults'') (JNum 10)),
                  (''yearFrom'', cfg node ''yearFrom''),
                  (''yearTo'', cfg node ''yearTo''),
                  (''sort'', js_or (cfg node ''sort'') (JStr ''relevance'')),
                  (''language'', js_or (cfg node ''language'') (JStr ''en'')),
                  (''includeAbstracts'', JBool (cfg node ''includeAbstracts'' \<noteq> JBool False)),
                  (''includeCitations'', js_or (cfg node ''includeCitations'') (JBool False))];
               (r, st1) = call env ''google-scholar-search'' body st
           in (bind r (\<lambda>resp.
               bind (get resp ''papers'') (\<lambda>p.
                 map_unless_empty (scholar_paper env (world st1) context) (js_or p (JArr [])))), st1)))"

definition executePerplexityResearchNode ::
  "'w env \<Rightarrow> WorkflowNode \<Rightarrow> WorkflowExecutionContext \<Rightarrow> 'w state \<Rightarrow> (js_error + json) \<times> 'w state" where
  "executePerplexityResearchNode env node context st =
     (case (if truthy (cfg node ''query'') then Inr (cfg node ''query'')
            else bind (get (data context) ''title'') (\<lambda>t. Inr (js_or t (JStr ''research query'')))) of
        Inl e \<Rightarrow> (Inl e, st)
      | Inr query \<Rightarrow>
          (let body = JObj
                 [(''query'', query),
                  (''mode'', js_or (cfg node ''mode'') (JStr ''comprehensive''))];
               (r, st1) = call env ''perplexity-research'' body st
           in (bind r (\<lambda>resp. Inr (JObj
                 (set_prop ''execution_context'' (JStr (executionId context))
                   (set_prop ''source_type'' (JStr ''research'')
                     (set_prop ''research_data'' resp (spread (data context))))))), st1)))"

definition executeMultiSourceSynthesizerNode ::
  "'w env \<Rightarrow> WorkflowNode \<Rightarrow> WorkflowExecutionContext \<Rightarrow> 'w state \<Rightarrow> (js_error + json) \<times> 'w state" where
  "executeMultiSourceSynthesizerNode env node context st =
     (let body = JObj
            [(''sources'', JArr [data context]),
             (''synthesisType'', js_or (cfg node ''synthesisType'') (JStr ''comprehensive'')),
             (''tone'', js_or (cfg node ''tone'') (JStr ''professional''))];
          (r, st1) = call env ''multi-source-synthesizer'' body st
      in (bind r (\<lambda>resp. Inr (JObj
            (set_prop ''execution_context'' (JStr (executionId context))
              (set_prop ''synthesized_content'' resp (spread (data context)))))), st1))"

definition executeAiProcessorNode ::
  "'w env \<Rightarrow> WorkflowNode \<Rightarrow> WorkflowExecutionContext \<Rightarrow> 'w state \<Rightarrow> (js_error + json) \<times> 'w state" where
  "executeAiProcessorNode env node context st =
     (case bind (get (data context) ''content'') (\<lambda>c.
             if truthy c then Inr c
             else bind (get (data context) ''description'') (\<lambda>d. Inr (js_or d (JStr [])))) of
        Inl e \<Rightarrow> (Inl e, st)
      | Inr content \<Rightarrow>
          (let body = JObj
                 [(''prompt'', js_or (cfg node ''prompt'') (JStr ''Generate article content'')),
                  (''content'', content),
                  (''tone'', js_or (cfg node ''tone'') (JStr ''professional'')),
                  (''length'', js_or (cfg node ''length'') (JStr ''medium''))];
               (r, st1) = call env ''ai-content-generator'' body st
           in (bind r (\<lambda>resp. Inr (JObj
                 (set_prop ''execution_context'' (JStr (executionId context))
                   (set_prop ''ai_content'' resp (spread (data context)))))), st1)))"

text \<open>
  \<^verbatim>\<open>executeFilterNode\<close>. \<open>chain_includes\<close> is the optional chain
  \<^verbatim>\<open>field?.toLowerCase().includes(filter.value.toLowerCase())\<close>: a nullish field
  short-circuits the whole chain to \<^verbatim>\<open>undefined\<close>, and a field or a rule value that is
  not a string has no \<^verbatim>\<open>toLowerCase\<close>. The loop variable \<^verbatim>\<open>filter\<close> is written
  \<open>rule\<close>. \<open>filter_rejects\<close> is the body of the \<^verbatim>\<open>switch\<close> for
  one rule: \<open>Inr True\<close> where the source returns \<^verbatim>\<open>null\<close>, \<open>Inr False\<close> where it breaks out
  of the \<^verbatim>\<open>switch\<close>.
\<close>

definition chain_includes :: "'w env \<Rightarrow> json \<Rightarrow> json \<Rightarrow> js_error + json" where
  "chain_includes env field rule =
     (if nullish field then Inr JUndefined
      else case field of
        JStr s \<Rightarrow>
          bind (get rule ''value'') (\<lambda>v.
            case v of
              JStr t \<Rightarrow> Inr (JBool (str_includes (toLowerCase env s) (toLowerCase env t)))
            | _ \<Rightarrow> Inl TypeError)
      | _ \<Rightarrow> Inl TypeError)"

definition filter_rejects :: "'w env \<Rightarrow> json \<Rightarrow> json \<Rightarrow> js_error + bool" where
  "filter_rejects env rule payload =
     bind (get rule ''type'') (\<lambda>ty.
       if ty = JStr ''keyword'' then
         bind (get payload ''title'') (\<lambda>title.
         bind (chain_includes env title rule) (\<lambda>hit1.
           if truthy hit1 then Inr False
           else
             bind (get payload ''content'') (\<lambda>content.
             bind (chain_includes env content rule) (\<lambda>hit2.
               Inr (\<not> truthy hit2)))))
       else if ty = JStr ''date'' then
         bind (get payload ''publishedAt'') (\<lambda>p.
         bind (if truthy p then Inr p else get payload ''published_date'') (\<lambda>d.
         bind (get rule ''value'') (\<lambda>v.
         bind (get rule ''operator'') (\<lambda>operator.
           let articleDate = date_value env d; filterDate = date_value env v in
           if operator = JStr ''after'' \<and> date_le articleDate filterDate then Inr True
           else if operator = JStr ''before'' \<and> date_ge articleDate filterDate then Inr True
           else Inr False))))
       else if ty = JStr ''score'' then
         bind (get payload ''priority_score'') (\<lambda>p.
         bind (get rule ''operator'') (\<lambda>operator.
         bind (get rule ''value'') (\<lambda>v.
           let score = js_or p (JNum 0) in
           if operator = JStr ''gt'' \<and> js_le env score v then Inr True
           else if operator = JStr ''lt'' \<and> js_ge env score v then Inr True
           else Inr False)))
       else Inr False)"

fun filter_loop :: "'w env \<Rightarrow> json list \<Rightarrow> json \<Rightarrow> js_error + json" where
  "filter_loop env [] payload = Inr payload"
| "filter_loop env (rule # rest) payload =
     (case filter_rejects env rule payload of
        Inl e \<Rightarrow> Inl e
      | Inr True \<Rightarrow> Inr JNull
      | Inr False \<Rightarrow> filter_loop env rest payload)"

text \<open>\<^verbatim>\<open>for (const x of v)\<close>: arrays and strings are iterable, nothing else here is.\<close>

definition iterate :: "json \<Rightarrow> js_error + json list" where
  "iterate v =
     (case v of
        JArr xs \<Rightarrow> Inr xs
      | JStr s \<Rightarrow> Inr (map (\<lambda>c. JStr [c]) s)
      | _ \<Rightarrow> Inl TypeError)"

definition executeFilterNode :: "'w env \<Rightarrow> WorkflowNode \<Rightarrow> WorkflowExecutionContext \<Rightarrow> js_error + json" where
  "executeFilterNode env node context =
     bind (iterate (js_or (cfg node ''filters'') (JArr []))) (\<lambda>filters.
       filter_loop env filters (data context))"

definition newline :: string where
  "newline = [CHR 0x0A]"

definition executePublisherNode ::
  "'w env \<Rightarrow> WorkflowNode \<Rightarrow> WorkflowExecutionContext \<Rightarrow> 'w state \<Rightarrow> (js_error + json) \<times> 'w state" where
  "executePublisherNode env node context st =
     (case
        bind (get (data context) ''ai_content'') (\<lambda>ai.
        bind (if nullish ai then Inr JUndefined else get ai ''content'') (\<lambda>aic.
        bind (get (data context) ''content'') (\<lambda>content.
        bind (get (data context) ''description'') (\<lambda>description.
        bind (get (data context) ''title'') (\<lambda>t.
        bind (get (data context) ''summary'') (\<lambda>summary.
          let articleContent = js_or (js_or (js_or aic content) description) (JStr []);
              title = js_or t (JStr ''Generated Article'')
          in
          bind (template_str env title) (\<lambda>titleText.
          bind (template_str env (js_or (js_or summary description) (JStr []))) (\<lambda>summaryText.
          bind (template_str env articleContent) (\<lambda>contentText.
            let fullContent =
                  ''# '' @ titleText @ newline @ newline @ summaryText @ newline @ newline @
                  contentText
            in Inr (JObj
                 [(''content'', JStr fullContent),
                  (''category'', js_or (cfg node ''category'') (JStr ''AI Generated'')),
                  (''provider'', JStr ''AI Processor''),
                  (''status'', JStr (if truthy (cfg node ''autoPublish'') then ''published'' else ''draft'')),
                  (''reporterId'', js_or (cfg node ''reporterId'') JNull)])))))))))) of
        Inl e \<Rightarrow> (Inl e, st)
      | Inr body \<Rightarrow>
          (let (r, st1) = call env ''create-article-from-ai'' body st
           in (bind r (\<lambda>resp. Inr (JObj
                 (set_prop ''execution_context'' (JStr (executionId context))
                   (set_prop ''published_article'' resp (spread (data context)))))), st1)))"

text \<open>\<^verbatim>\<open>executeNode\<close>: the dispatch on \<^verbatim>\<open>node.type\<close>.\<close>

definition executeNode ::
  "'w env \<Rightarrow> WorkflowNode \<Rightarrow> WorkflowExecutionContext \<Rightarrow> 'w state \<Rightarrow> (js_error + json) \<times> 'w state" where
  "executeNode env node context st =
     (if node_type node = ''trigger'' then (executeTriggerNode node context, st)
      else if node_type node = ''news-discovery'' then executeNewsDiscoveryNode env node context st
      else if node_type node = ''rss-aggregator'' then executeRssAggregatorNode env node context st
      else if node_type node = ''google-scholar-search'' then executeGoogleScholarNode env node context st
      else if node_type node = ''perplexity-research'' then executePerplexityResearchNode env node context st
      else if node_type node = ''multi-source-synthesizer'' then executeMultiSourceSynthesizerNode env node context st
      else if node_type node = ''ai-processor'' then executeAiProcessorNode env node context st
      else if node_type node = ''filter'' then (executeFilterNode env node context, st)
      else if node_type node = ''publisher'' then executePublisherNode env node context st
      else (Inr (data context), st))"


section \<open>The run: \<^verbatim>\<open>executeWorkflow\<close>\<close>

definition context_key :: "WorkflowNode \<Rightarrow> string" where
  "context_key node = node_type node @ ''_'' @ node_id node"

text \<open>
  What one result of \<^verbatim>\<open>executeNode\<close> pushes onto \<^verbatim>\<open>newContexts\<close>: one context per
  element of an array, one context for any other value that is neither \<^verbatim>\<open>null\<close> nor
  \<^verbatim>\<open>undefined\<close>, nothing otherwise.
\<close>

definition fan_out :: "WorkflowNode \<Rightarrow> WorkflowExecutionContext \<Rightarrow> json \<Rightarrow> WorkflowExecutionContext list" where
  "fan_out node context nodeResults =
     (case nodeResults of
        JArr xs \<Rightarrow>
          map (\<lambda>(index, result).
                 \<lparr>executionId = executionId context @ ''-'' @ node_id node @ ''-'' @ show_nat index,
                  data = result,
                  metadata = set_prop (context_key node) result (metadata context)\<rparr>)
              (enumerate 0 xs)
      | JNull \<Rightarrow> []
      | JUndefined \<Rightarrow> []
      | _ \<Rightarrow>
          [\<lparr>executionId = executionId context,
            data = nodeResults,
            metadata = set_prop (context_key node) nodeResults (metadata context)\<rparr>])"

text \<open>
  The inner loop over \<^verbatim>\<open>executionContexts\<close>, with its accumulator \<^verbatim>\<open>newContexts\<close>. The
  \<^verbatim>\<open>catch\<close> of the loop body logs the error and goes on with the next context.
\<close>

fun process_contexts ::
  "'w env \<Rightarrow> WorkflowNode \<Rightarrow> WorkflowExecutionContext list \<Rightarrow> WorkflowExecutionContext list \<Rightarrow>
   'w state \<Rightarrow> WorkflowExecutionContext list \<times> 'w state" where
  "process_contexts env node [] newContexts st = (newContexts, st)"
| "process_contexts env node (context # rest) newContexts st =
     (case executeNode env node context st of
        (Inl error, st1) \<Rightarrow> process_contexts env node rest newContexts st1
      | (Inr nodeResults, st1) \<Rightarrow>
          process_contexts env node rest (newContexts @ fan_out node context nodeResults) st1)"

text \<open>The outer loop over \<^verbatim>\<open>sortedNodes\<close>, left early when no context remains.\<close>

fun run_nodes ::
  "'w env \<Rightarrow> WorkflowNode list \<Rightarrow> WorkflowExecutionContext list \<Rightarrow> 'w state \<Rightarrow>
   WorkflowExecutionContext list \<times> 'w state" where
  "run_nodes env [] executionContexts st = (executionContexts, st)"
| "run_nodes env (node # rest) executionContexts st =
     (let (newContexts, st1) = process_contexts env node executionContexts [] st
      in if length newContexts = 0 then (newContexts, st1)
         else run_nodes env rest newContexts st1)"

definition store_update :: "'w env \<Rightarrow> string \<Rightarrow> exec_fields \<Rightarrow> 'w state \<Rightarrow> 'w state" where
  "store_update env rid flds st =
     st\<lparr>world := db_update env rid flds (world st),
        store_log := store_log st @ [Update rid flds]\<rparr>"

definition no_fields :: exec_fields where
  "no_fields = \<lparr>f_workflow_rule_id = None, f_suggestion_id = None, f_status = None,
     f_started_at = None, f_completed_at = None, f_result = None, f_error_message = None\<rparr>"

text \<open>
  \<^verbatim>\<open>error instanceof Error ? error.message : 'Unknown error'\<close>. The message of a
  \<^verbatim>\<open>TypeError\<close> is the engine's own text.
\<close>

definition type_error_message :: string where
  "type_error_message = ''TypeError''"

definition message_of :: "js_error \<Rightarrow> string" where
  "message_of e =
     (case e of Error m \<Rightarrow> m | TypeError \<Rightarrow> type_error_message | Thrown v \<Rightarrow> ''Unknown error'')"

text \<open>
  The first statement of \<^verbatim>\<open>executeWorkflow\<close>: the insert of the execution record, with
  a fresh id and the start time. The client's answer is \<open>Inl\<close> for a truthy \<^verbatim>\<open>error\<close>.
\<close>

definition create_execution ::
  "'w env \<Rightarrow> string \<Rightarrow> 'w state \<Rightarrow> (js_error + WorkflowExecution) \<times> 'w state" where
  "create_execution env workflowId st =
     (let (uuid, w1) = randomUUID env (world st);
          flds = no_fields\<lparr>f_workflow_rule_id := Some workflowId,
                   f_suggestion_id := Some uuid,
                   f_status := Some Running,
                   f_started_at := Some (toISOString env (now env w1))\<rparr>;
          (ins, w2) = db_insert env flds w1
      in (ins, st\<lparr>world := w2, store_log := store_log st @ [Insert flds]\<rparr>))"

text \<open>The root context: \<^verbatim>\<open>triggerData || {}\<close> under the id of the execution record.\<close>

definition initial_contexts :: "WorkflowExecution \<Rightarrow> json \<Rightarrow> WorkflowExecutionContext list" where
  "initial_contexts execution triggerData =
     [\<lparr>executionId = exec_id execution,
       data = js_or triggerData (JObj []),
       metadata = []\<rparr>]"

text \<open>
  The \<^verbatim>\<open>try\<close> block of \<^verbatim>\<open>executeWorkflow\<close>; \<open>None\<close> only if the sort ran out of fuel.
  The result of \<^verbatim>\<open>update\<close> is not inspected by the source.
\<close>

definition try_block ::
  "'w env \<Rightarrow> WorkflowNode list \<Rightarrow> json \<Rightarrow> WorkflowExecution \<Rightarrow> 'w state \<Rightarrow>
   ((js_error + WorkflowExecution list) \<times> 'w state) option" where
  "try_block env nodes triggerData execution st =
     (case topologicalSort nodes of
        None \<Rightarrow> None
      | Some (Inl e) \<Rightarrow> Some (Inl e, st)
      | Some (Inr sortedNodes) \<Rightarrow>
          (let (final, st1) = run_nodes env sortedNodes (initial_contexts execution triggerData) st;
               st2 = store_update env (exec_id execution)
                       (no_fields\<lparr>f_status := Some Completed,
                          f_completed_at := Some (toISOString env (now env (world st1))),
                          f_result := Some (JObj
                            [(''contexts'', JNum (of_nat (length final))),
                             (''final_results'', JArr (map data final))])\<rparr>) st1
           in Some (Inr [execution\<lparr>status := Completed\<rparr>], st2)))"

text \<open>\<^verbatim>\<open>executeWorkflow\<close>: the insert, the \<^verbatim>\<open>try\<close> block, and its \<^verbatim>\<open>catch\<close>.\<close>

definition executeWorkflow ::
  "'w env \<Rightarrow> string \<Rightarrow> WorkflowNode list \<Rightarrow> json \<Rightarrow> 'w state \<Rightarrow>
   ((js_error + WorkflowExecution list) \<times> 'w state) option" where
  "executeWorkflow env workflowId nodes triggerData st =
     (case create_execution env workflowId st of
        (Inl error, st1) \<Rightarrow> Some (Inl error, st1)
      | (Inr execution, st1) \<Rightarrow>
          (case try_block env nodes triggerData execution st1 of
             None \<Rightarrow> None
           | Some (Inr r, st2) \<Rightarrow> Some (Inr r, st2)
           | Some (Inl error, st2) \<Rightarrow>
               Some (Inl error,
                 store_update env (exec_id execution)
                   (no_fields\<lparr>f_status := Some Failed,
                      f_completed_at := Some (toISOString env (now env (world st2))),
                      f_error_message := Some (message_of error)\<rparr>) st2)))"

section \<open>Specification vocabulary\<close>

text \<open>
  The graph as the sort resolves it: an edge leads from an id to each entry of the
  \<^verbatim>\<open>connected\<close> list of the node that \<^verbatim>\<open>nodes.find\<close> returns for that id. With pairwise
  distinct ids these are exactly the edges \<open>u \<rightarrow> v\<close> with \<open>v\<close> in \<open>u\<close>'s list (\<open>edges_distinct\<close>).
\<close>

definition ids :: "WorkflowNode list \<Rightarrow> string set" where
  "ids nodes = node_id ` set nodes"

definition edges :: "WorkflowNode list \<Rightarrow> (string \<times> string) set" where
  "edges nodes =
     {(x, y). \<exists>u. find (\<lambda>m. node_id m = x) nodes = Some u \<and> y \<in> set (connected u)}"

text \<open>\<open>precedes a b xs\<close>: \<open>a\<close> occurs in \<open>xs\<close> and \<open>b\<close> occurs after its first occurrence.\<close>

fun precedes :: "'a \<Rightarrow> 'a \<Rightarrow> 'a list \<Rightarrow> bool" where
  "precedes a b [] = False"
| "precedes a b (x # xs) = (if x = a then b \<in> set xs else precedes a b xs)"

text \<open>
  The ids the sort starts a visit from, in order: the trigger nodes in input order,
  then every node in input order. \<open>reachable_from nodes starts a\<close>: node \<open>a\<close> is one of
  \<open>starts\<close> or downstream of one.
\<close>

definition seeds :: "WorkflowNode list \<Rightarrow> WorkflowNode list" where
  "seeds nodes = filter (\<lambda>m. node_type m = ''trigger'') nodes @ nodes"

definition reachable_from :: "WorkflowNode list \<Rightarrow> WorkflowNode list \<Rightarrow> WorkflowNode \<Rightarrow> bool" where
  "reachable_from nodes starts a \<longleftrightarrow>
     (\<exists>s\<in>set starts. (node_id s, node_id a) \<in> (edges nodes)\<^sup>*)"

text \<open>Invariants of the sort, used in the proofs.\<close>

definition init_state :: sort_state where
  "init_state = \<lparr>sorted_nodes = [], visited = {}, visiting = {}\<rparr>"

fun topo_rev :: "string set \<Rightarrow> WorkflowNode list \<Rightarrow> bool" where
  "topo_rev I [] = True"
| "topo_rev I (u # earlier) =
     ((\<forall>v\<in>set (connected u). v \<in> I \<longrightarrow> v \<in> node_id ` set earlier) \<and> topo_rev I earlier)"

definition sort_inv :: "WorkflowNode list \<Rightarrow> sort_state \<Rightarrow> bool" where
  "sort_inv nodes st \<longleftrightarrow>
     visited st = node_id ` set (sorted_nodes st) \<and>
     distinct (map node_id (sorted_nodes st)) \<and>
     (\<forall>u\<in>set (sorted_nodes st). find (\<lambda>m. node_id m = node_id u) nodes = Some u) \<and>
     visited st \<inter> visiting st = {} \<and>
     topo_rev (ids nodes) (rev (sorted_nodes st))"

definition extends :: "WorkflowNode list \<Rightarrow> string set \<Rightarrow> sort_state \<Rightarrow> sort_state \<Rightarrow> bool" where
  "extends nodes S st st' \<longleftrightarrow>
     (\<exists>new. sorted_nodes st' = sorted_nodes st @ new \<and>
        (\<forall>w\<in>set new. \<exists>s\<in>S. (s, node_id w) \<in> (edges nodes)\<^sup>*))"

text \<open>The status a write to the execution table carries.\<close>

fun written_status :: "store_op \<Rightarrow> exec_status option" where
  "written_status (Insert flds) = f_status flds"
| "written_status (Update rid flds) = f_status flds"













section \<open>Example inputs\<close>

text \<open>
  The four-node pipeline trigger \<open>\<rightarrow>\<close> discovery \<open>\<rightarrow>\<close> filter \<open>\<rightarrow>\<close> publisher, with the keyword
  rule \<^verbatim>\<open>launch\<close> on the filter.
\<close>

definition keyword_rule :: json where
  "keyword_rule = JObj [(''type'', JStr ''keyword''), (''value'', JStr ''launch'')]"

definition e2e_nodes :: "WorkflowNode list" where
  "e2e_nodes =
     [\<lparr>node_id = ''t'', node_type = ''trigger'', label = ''Trigger'', config = [],
        connected = [''d'']\<rparr>,
      \<lparr>node_id = ''d'', node_type = ''news-discovery'', label = ''Discovery'', config = [],
        connected = [''f'']\<rparr>,
      \<lparr>node_id = ''f'', node_type = ''filter'', label = ''Filter'',
        config = [(''filters'', JArr [keyword_rule])],
        connected = [''p'']\<rparr>,
      \<lparr>node_id = ''p'', node_type = ''publisher'', label = ''Publisher'', config = [],
        connected = []\<rparr>]"

text \<open>
  Collaborators for the examples: the discovery function answers with two articles, the
  publish function with a created record, the insert with the record \<open>run_record\<close>; time
  stands still, a number is the time value of its date and nothing else is a date, and
  the case fold maps the ASCII capitals to small letters.
\<close>

definition lower_char :: "char \<Rightarrow> char" where
  "lower_char c = (let n = (of_char c :: nat) in if 65 \<le> n \<and> n \<le> 90 then char_of (n + 32) else c)"

definition run_record :: WorkflowExecution where
  "run_record = \<lparr>exec_id = ''run'', workflow_rule_id = ''wf'', suggestion_id = ''uuid'',
     status = Running, started_at = ''t0'', completed_at = None, result = None,
     error_message = None\<rparr>"

definition stub_env :: "unit env" where
  "stub_env = \<lparr>
     invoke = (\<lambda>name body w.
       (if name = ''news-discovery'' then
          Inr (JObj [(''articles'', JArr [JObj [(''title'', JStr ''Product launch today'')],
                                          JObj [(''title'', JStr ''Weather update'')]])])
        else if name = ''create-article-from-ai'' then Inr (JObj [(''id'', JNum 1)])
        else Inl (Error ''unexpected call''), w)),
     db_insert = (\<lambda>f w. (Inr run_record, w)),
     db_update = (\<lambda>rid f w. w),
     randomUUID = (\<lambda>w. (''uuid'', w)),
     now = (\<lambda>w. 0),
     toISOString = (\<lambda>t. ''t0''),
     date_value = (\<lambda>v. case v of JNum n \<Rightarrow> Some \<lfloor>n\<rfloor> | _ \<Rightarrow> None),
     to_string = (\<lambda>v. Inr []),
     toLowerCase = map lower_char,
     le_coerced = (\<lambda>a b. False)\<rparr>"

definition st0 :: "unit state" where
  "st0 = \<lparr>world = (), calls = [], store_log = []\<rparr>"

definition context_of :: "string \<Rightarrow> json \<Rightarrow> WorkflowExecutionContext" where
  "context_of i v = \<lparr>executionId = i, data = v, metadata = []\<rparr>"

definition launch_article :: json where
  "launch_article = JObj [(''title'', JStr ''Product launch today'')]"

text \<open>A trigger and a filter that are not connected, and trigger data of three payloads.\<close>

definition isolation_nodes :: "WorkflowNode list" where
  "isolation_nodes =
     [\<lparr>node_id = ''t'', node_type = ''trigger'', label = ''Trigger'', config = [],
        connected = []\<rparr>,
      \<lparr>node_id = ''f'', node_type = ''filter'', label = ''Filter'',
        config = [(''filters'', JArr [keyword_rule])],
        connected = []\<rparr>]"

definition isolation_data :: json where
  "isolation_data = JArr [launch_article, JNull, JObj [(''content'', JStr ''A LAUNCH party'')]]"

text \<open>A trigger that leads into the cycle \<open>a \<rightarrow> b \<rightarrow> a\<close>.\<close>

definition cyclic_nodes :: "WorkflowNode list" where
  "cyclic_nodes =
     [\<lparr>node_id = ''t'', node_type = ''trigger'', label = ''Trigger'', config = [],
        connected = [''a'']\<rparr>,
      \<lparr>node_id = ''a'', node_type = ''ai-processor'', label = ''A'', config = [],
        connected = [''b'']\<rparr>,
      \<lparr>node_id = ''b'', node_type = ''filter'', label = ''B'', config = [],
        connected = [''a'']\<rparr>]"





section \<open>Properties of the graph ordering\<close>

lemma find_id: "find (\<lambda>m. node_id m = x) nodes = Some u \<Longrightarrow> node_id u = x \<and> u \<in> set nodes"
  by (induction nodes) (auto split: if_splits)

lemma find_None_ids: "find (\<lambda>m. node_id m = x) nodes = None \<longleftrightarrow> x \<notin> ids nodes"
  by (induction nodes) (auto simp: ids_def)

lemma find_distinct:
  "distinct (map node_id nodes) \<Longrightarrow> u \<in> set nodes \<Longrightarrow>
     find (\<lambda>m. node_id m = node_id u) nodes = Some u"
  by (induction nodes) (auto simp: image_iff)

lemma edges_distinct:
  assumes "distinct (map node_id nodes)"
  shows "edges nodes = {(node_id u, v) | u v. u \<in> set nodes \<and> v \<in> set (connected u)}"
proof (intro set_eqI iffI)
  fix e assume "e \<in> edges nodes"
  then obtain x y u where "e = (x, y)" "find (\<lambda>m. node_id m = x) nodes = Some u"
    "y \<in> set (connected u)" by (auto simp: edges_def)
  with find_id[of x nodes u]
  show "e \<in> {(node_id u, v) | u v. u \<in> set nodes \<and> v \<in> set (connected u)}" by auto
next
  fix e assume "e \<in> {(node_id u, v) | u v. u \<in> set nodes \<and> v \<in> set (connected u)}"
  then obtain u v where "e = (node_id u, v)" "u \<in> set nodes" "v \<in> set (connected u)" by auto
  with find_distinct[OF assms, of u] show "e \<in> edges nodes" by (auto simp: edges_def)
qed

lemma visit_Suc_cases:
  assumes "visit (Suc n) nodes x st = Some (Inr st')"
  obtains
    (seen) "x \<notin> visiting st" "x \<in> visited st" "st' = st"
  | (missing) "x \<notin> visiting st" "x \<notin> visited st" "find (\<lambda>m. node_id m = x) nodes = None" "st' = st"
  | (found) node st2 where "x \<notin> visiting st" "x \<notin> visited st"
      "find (\<lambda>m. node_id m = x) nodes = Some node"
      "visit_connected n nodes (connected node) (st\<lparr>visiting := insert x (visiting st)\<rparr>) = Some (Inr st2)"
      "st' = st2\<lparr>sorted_nodes := sorted_nodes st2 @ [node], visited := insert x (visited st2),
                 visiting := visiting st2 - {x}\<rparr>"
proof -
  from assms have nv: "x \<notin> visiting st" by (simp split: if_splits)
  show thesis
  proof (cases "x \<in> visited st")
    case True
    with assms nv have "st' = st" by simp
    with nv True show thesis by (rule seen)
  next
    case nvd: False
    show thesis
    proof (cases "find (\<lambda>m. node_id m = x) nodes")
      case None
      with assms nv nvd have "st' = st" by (simp add: Let_def)
      with nv nvd None show thesis by (rule missing)
    next
      case (Some node)
      with assms nv nvd obtain st2 where
        a: "visit_connected n nodes (connected node) (st\<lparr>visiting := insert x (visiting st)\<rparr>) = Some (Inr st2)"
        and b: "st' = st2\<lparr>sorted_nodes := sorted_nodes st2 @ [node], visited := insert x (visited st2),
                 visiting := visiting st2 - {x}\<rparr>"
        by (simp add: Let_def split: option.splits sum.splits)
      from nv nvd Some a b show thesis by (rule found)
    qed
  qed
qed

lemma visit_connected_Cons_cases:
  assumes "visit_connected n nodes (c # cs) st = Some (Inr st')"
  obtains st1 where "visit n nodes c st = Some (Inr st1)" "visit_connected n nodes cs st1 = Some (Inr st')"
  using assms by (simp split: option.splits sum.splits)

lemma visit_visiting:
  "visit n nodes x st = Some (Inr st') \<Longrightarrow> visiting st' = visiting st"
  "visit_connected n nodes cs st = Some (Inr st') \<Longrightarrow> visiting st' = visiting st"
proof (induction n nodes x st and n nodes cs st arbitrary: st' and st' rule: visit_visit_connected.induct)
  case (2 n nodes nodeId st)
  from "2.prems" show ?case
  proof (cases rule: visit_Suc_cases)
    case (found node st2)
    from "2.IH"[OF found(1) found(2) refl found(3) found(4)] found show ?thesis by auto
  qed simp_all
next
  case (4 n nodes connectedId rest st)
  from "4.prems" obtain st1 where a: "visit n nodes connectedId st = Some (Inr st1)"
    and b: "visit_connected n nodes rest st1 = Some (Inr st')"
    by (rule visit_connected_Cons_cases)
  from "4.IH"(1)[OF a] "4.IH"(2)[OF a refl b] show ?case by simp
qed simp_all

lemma visit_error:
  "visit n nodes x st = Some (Inl e) \<Longrightarrow> e = circular"
  "visit_connected n nodes cs st = Some (Inl e) \<Longrightarrow> e = circular"
proof (induction n nodes x st and n nodes cs st rule: visit_visit_connected.induct)
  case (2 n nodes nodeId st)
  show ?case
  proof (cases "nodeId \<in> visiting st")
    case True
    with "2.prems" show ?thesis by simp
  next
    case nv: False
    show ?thesis
    proof (cases "nodeId \<in> visited st")
      case True
      with "2.prems" nv show ?thesis by simp
    next
      case nvd: False
      show ?thesis
      proof (cases "find (\<lambda>m. node_id m = nodeId) nodes")
        case None
        with "2.prems" nv nvd show ?thesis by (simp add: Let_def)
      next
        case (Some node)
        with "2.prems" nv nvd
        have "visit_connected n nodes (connected node) (st\<lparr>visiting := insert nodeId (visiting st)\<rparr>) = Some (Inl e)"
          by (simp add: Let_def split: option.splits sum.splits)
        with "2.IH"[OF nv nvd refl Some] show ?thesis by simp
      qed
    qed
  qed
next
  case (4 n nodes connectedId rest st)
  show ?case
  proof (cases "visit n nodes connectedId st")
    case None
    with "4.prems" show ?thesis by simp
  next
    case (Some r)
    show ?thesis
    proof (cases r)
      case (Inl e')
      with Some "4.prems" "4.IH"(1) show ?thesis by simp
    next
      case (Inr st1)
      with Some "4.prems" "4.IH"(2) show ?thesis by simp
    qed
  qed
qed simp_all

lemma visit_total:
  "card (ids nodes - visiting st) < n \<Longrightarrow> visit n nodes x st \<noteq> None"
  "card (ids nodes - visiting st) < n \<Longrightarrow> visit_connected n nodes cs st \<noteq> None"
proof (induction n nodes x st and n nodes cs st rule: visit_visit_connected.induct)
  case (1 nodes nodeId st)
  then show ?case by simp
next
  case (2 n nodes nodeId st)
  show ?case
  proof (cases "nodeId \<in> visiting st")
    case True
    then show ?thesis by simp
  next
    case nv: False
    show ?thesis
    proof (cases "nodeId \<in> visited st")
      case True
      with nv show ?thesis by simp
    next
      case nvd: False
      show ?thesis
      proof (cases "find (\<lambda>m. node_id m = nodeId) nodes")
        case None
        with nv nvd show ?thesis by (simp add: Let_def)
      next
        case (Some node)
        then have "nodeId \<in> ids nodes" using find_None_ids[of nodeId nodes] by auto
        with nv have "card (ids nodes - insert nodeId (visiting st)) < card (ids nodes - visiting st)"
          by (intro psubset_card_mono) (auto simp: ids_def)
        with "2.prems" have "card (ids nodes - visiting (st\<lparr>visiting := insert nodeId (visiting st)\<rparr>)) < n"
          by simp
        with "2.IH"[OF nv nvd refl Some]
        have "visit_connected n nodes (connected node) (st\<lparr>visiting := insert nodeId (visiting st)\<rparr>) \<noteq> None"
          by simp
        with nv nvd Some show ?thesis
          by (simp add: Let_def split: option.splits sum.splits)
      qed
    qed
  qed
next
  case (3 n nodes st)
  then show ?case by simp
next
  case (4 n nodes connectedId rest st)
  show ?case
  proof (cases "visit n nodes connectedId st")
    case None
    with 4 show ?thesis by simp
  next
    case (Some r)
    show ?thesis
    proof (cases r)
      case (Inl e)
      with Some show ?thesis by simp
    next
      case (Inr st')
      with Some have "visiting st' = visiting st" by (simp add: visit_visiting(1))
      with 4 Some Inr show ?thesis by simp
    qed
  qed
qed

lemma extends_refl: "extends nodes S st st"
  by (simp add: extends_def)

lemma extends_trans:
  "extends nodes S st st1 \<Longrightarrow> extends nodes T st1 st2 \<Longrightarrow> extends nodes (S \<union> T) st st2"
  unfolding extends_def by (elim exE conjE, rule_tac x="new @ newa" in exI) auto

lemma extends_visited:
  "extends nodes S st st' \<Longrightarrow> sort_inv nodes st \<Longrightarrow> sort_inv nodes st' \<Longrightarrow> visited st \<subseteq> visited st'"
  by (auto simp: extends_def sort_inv_def)

lemma visit_inv:
  "visit n nodes x st = Some (Inr st') \<Longrightarrow> sort_inv nodes st \<Longrightarrow>
     sort_inv nodes st' \<and> extends nodes {x} st st' \<and> (x \<in> ids nodes \<longrightarrow> x \<in> visited st')"
  "visit_connected n nodes cs st = Some (Inr st') \<Longrightarrow> sort_inv nodes st \<Longrightarrow>
     sort_inv nodes st' \<and> extends nodes (set cs) st st' \<and> (\<forall>c\<in>set cs. c \<in> ids nodes \<longrightarrow> c \<in> visited st')"
proof (induction n nodes x st and n nodes cs st arbitrary: st' and st' rule: visit_visit_connected.induct)
  case (1 nodes nodeId st)
  then show ?case by simp
next
  case (2 n nodes x st)
  from "2.prems"(1) show ?case
  proof (cases rule: visit_Suc_cases)
    case seen
    with "2.prems"(2) show ?thesis by (simp add: extends_refl)
  next
    case missing
    with "2.prems"(2) show ?thesis by (simp add: extends_refl find_None_ids)
  next
    case (found node st2)
    let ?st1 = "st\<lparr>visiting := insert x (visiting st)\<rparr>"
    from "2.prems"(2) found(2) have inv1: "sort_inv nodes ?st1"
      by (auto simp: sort_inv_def)
    from "2.IH"[OF found(1) found(2) refl found(3) found(4) inv1]
    have inv2: "sort_inv nodes st2" and ext2: "extends nodes (set (connected node)) ?st1 st2"
      and ch: "\<forall>c\<in>set (connected node). c \<in> ids nodes \<longrightarrow> c \<in> visited st2"
      by simp_all
    from visit_visiting(2)[OF found(4)] have vis2: "visiting st2 = insert x (visiting st)" by simp
    from find_id[OF found(3)] have idn: "node_id node = x" by simp
    from inv2 vis2 have xn: "x \<notin> node_id ` set (sorted_nodes st2)"
      by (auto simp: sort_inv_def)
    have inv': "sort_inv nodes st'"
      using inv2 vis2 idn xn ch found(3) unfolding sort_inv_def found(5)
      by auto
    from ext2 obtain new where new: "sorted_nodes st2 = sorted_nodes st @ new"
      and reach: "\<forall>w\<in>set new. \<exists>s\<in>set (connected node). (s, node_id w) \<in> (edges nodes)\<^sup>*"
      by (auto simp: extends_def)
    have edge: "\<And>c. c \<in> set (connected node) \<Longrightarrow> (x, c) \<in> edges nodes"
      using found(3) by (auto simp: edges_def)
    have "\<forall>w\<in>set (new @ [node]). (x, node_id w) \<in> (edges nodes)\<^sup>*"
    proof
      fix w assume "w \<in> set (new @ [node])"
      then consider "w = node" | "w \<in> set new" by auto
      then show "(x, node_id w) \<in> (edges nodes)\<^sup>*"
      proof cases
        case 1
        with idn show ?thesis by simp
      next
        case 2
        with reach obtain s where "s \<in> set (connected node)" "(s, node_id w) \<in> (edges nodes)\<^sup>*"
          by auto
        with edge[of s] show ?thesis by (meson converse_rtrancl_into_rtrancl)
      qed
    qed
    with new have "extends nodes {x} st st'"
      unfolding extends_def found(5) by (intro exI[of _ "new @ [node]"]) simp
    with inv' show ?thesis by (simp add: found(5))
  qed
next
  case (3 n nodes st)
  then show ?case by (simp add: extends_refl)
next
  case (4 n nodes c rest st)
  from "4.prems"(1) obtain st1 where a: "visit n nodes c st = Some (Inr st1)"
    and b: "visit_connected n nodes rest st1 = Some (Inr st')"
    by (rule visit_connected_Cons_cases)
  from "4.IH"(1)[OF a "4.prems"(2)]
  have inv1: "sort_inv nodes st1" and ext1: "extends nodes {c} st st1"
    and c1: "c \<in> ids nodes \<longrightarrow> c \<in> visited st1" by simp_all
  from "4.IH"(2)[OF a refl b inv1]
  have inv': "sort_inv nodes st'" and ext2: "extends nodes (set rest) st1 st'"
    and c2: "\<forall>c\<in>set rest. c \<in> ids nodes \<longrightarrow> c \<in> visited st'" by simp_all
  from extends_trans[OF ext1 ext2] have "extends nodes (set (c # rest)) st st'" by simp
  moreover from extends_visited[OF ext2 inv1 inv'] c1 c2
  have "\<forall>d\<in>set (c # rest). d \<in> ids nodes \<longrightarrow> d \<in> visited st'" by auto
  ultimately show ?case using inv' by simp
qed

lemma visit_acyclic:
  "acyclic (edges nodes) \<Longrightarrow> \<forall>p\<in>visiting st. (p, x) \<in> (edges nodes)\<^sup>+ \<Longrightarrow>
     visit n nodes x st \<noteq> Some (Inl e)"
  "acyclic (edges nodes) \<Longrightarrow> \<forall>p\<in>visiting st. \<forall>c\<in>set cs. (p, c) \<in> (edges nodes)\<^sup>+ \<Longrightarrow>
     visit_connected n nodes cs st \<noteq> Some (Inl e)"
proof (induction n nodes x st and n nodes cs st rule: visit_visit_connected.induct)
  case (1 nodes nodeId st)
  then show ?case by simp
next
  case (2 n nodes x st)
  from "2.prems" have nv: "x \<notin> visiting st"
    by (auto simp: acyclic_def)
  show ?case
  proof (cases "x \<in> visited st")
    case True
    with nv show ?thesis by simp
  next
    case nvd: False
    show ?thesis
    proof (cases "find (\<lambda>m. node_id m = x) nodes")
      case None
      with nv nvd show ?thesis by (simp add: Let_def)
    next
      case (Some node)
      have edge: "\<And>c. c \<in> set (connected node) \<Longrightarrow> (x, c) \<in> edges nodes"
        using Some by (auto simp: edges_def)
      have "\<forall>p\<in>visiting (st\<lparr>visiting := insert x (visiting st)\<rparr>).
              \<forall>c\<in>set (connected node). (p, c) \<in> (edges nodes)\<^sup>+"
        using "2.prems"(2) edge by (auto intro: trancl_into_trancl)
      from "2.IH"[OF nv nvd refl Some "2.prems"(1) this] nv nvd Some
      show ?thesis by (auto simp: Let_def split: option.splits sum.splits)
    qed
  qed
next
  case (3 n nodes st)
  then show ?case by simp
next
  case (4 n nodes c rest st)
  from "4.prems" have h1: "\<forall>p\<in>visiting st. (p, c) \<in> (edges nodes)\<^sup>+" by simp
  note a = "4.IH"(1)[OF "4.prems"(1) h1]
  show ?case
  proof (cases "visit n nodes c st")
    case None
    then show ?thesis by simp
  next
    case (Some r)
    show ?thesis
    proof (cases r)
      case (Inl e')
      with Some a show ?thesis by auto
    next
      case (Inr st1)
      with Some have "visiting st1 = visiting st" by (simp add: visit_visiting(1))
      with "4.prems" have "\<forall>p\<in>visiting st1. \<forall>c\<in>set rest. (p, c) \<in> (edges nodes)\<^sup>+" by simp
      from "4.IH"(2)[OF Some Inr "4.prems"(1) this] Some Inr show ?thesis by simp
    qed
  qed
qed

lemma visit_fuel_mono:
  "visit n nodes x st = Some r \<Longrightarrow> n \<le> m \<Longrightarrow> visit m nodes x st = Some r"
  "visit_connected n nodes cs st = Some r \<Longrightarrow> n \<le> m \<Longrightarrow> visit_connected m nodes cs st = Some r"
proof (induction n nodes x st and n nodes cs st arbitrary: r m and r m rule: visit_visit_connected.induct)
  case (1 nodes nodeId st)
  then show ?case by simp
next
  case (2 n nodes x st)
  from "2.prems"(2) obtain m' where m: "m = Suc m'" and le: "n \<le> m'"
    by (cases m) auto
  show ?case
  proof (cases "x \<in> visiting st \<or> x \<in> visited st")
    case True
    with "2.prems"(1) show ?thesis unfolding m by auto
  next
    case False
    then have nv: "x \<notin> visiting st" and nvd: "x \<notin> visited st" by auto
    show ?thesis
    proof (cases "find (\<lambda>m. node_id m = x) nodes")
      case None
      with "2.prems"(1) nv nvd show ?thesis unfolding m by (simp add: Let_def)
    next
      case (Some node)
      let ?st1 = "st\<lparr>visiting := insert x (visiting st)\<rparr>"
      from "2.prems"(1) nv nvd Some obtain r' where
        r': "visit_connected n nodes (connected node) ?st1 = Some r'"
        by (auto simp: Let_def split: option.splits)
      from "2.IH"[OF nv nvd refl Some r' le]
      have "visit_connected m' nodes (connected node) ?st1 = Some r'" .
      with r' "2.prems"(1) nv nvd Some show ?thesis unfolding m by (simp add: Let_def)
    qed
  qed
next
  case (3 n nodes st)
  then show ?case by simp
next
  case (4 n nodes c rest st)
  from "4.prems"(1) obtain r1 where r1: "visit n nodes c st = Some r1"
    by (auto split: option.splits)
  from "4.IH"(1)[OF r1 "4.prems"(2)] have r1': "visit m nodes c st = Some r1" .
  show ?case
  proof (cases r1)
    case (Inl e)
    with r1 r1' "4.prems"(1) show ?thesis by auto
  next
    case (Inr st1)
    with r1 "4.prems"(1) have "visit_connected n nodes rest st1 = Some r" by simp
    from "4.IH"(2)[OF r1 Inr this "4.prems"(2)] r1' Inr show ?thesis by simp
  qed
qed

lemma topo_rev_mem:
  "topo_rev I xs \<Longrightarrow> u \<in> set xs \<Longrightarrow> v \<in> set (connected u) \<Longrightarrow> v \<in> I \<Longrightarrow> v \<in> node_id ` set xs"
  by (induction xs) auto

lemma sort_inv_closed:
  assumes inv: "sort_inv nodes st" and x: "x \<in> visited st"
    and r: "(x, y) \<in> (edges nodes)\<^sup>*" and y: "y \<in> ids nodes"
  shows "y \<in> visited st"
  using r y
proof (induction rule: rtrancl_induct)
  case base
  from x show ?case .
next
  case (step y z)
  from step.hyps(2) obtain u where u: "find (\<lambda>m. node_id m = y) nodes = Some u"
    and z: "z \<in> set (connected u)" by (auto simp: edges_def)
  from u have "y \<in> ids nodes" using find_None_ids[of y nodes] by auto
  with step.IH have "y \<in> visited st" by simp
  with inv obtain w where w: "w \<in> set (sorted_nodes st)" "node_id w = y"
    by (auto simp: sort_inv_def)
  with inv u have "w = u" by (auto simp: sort_inv_def)
  with w have "u \<in> set (rev (sorted_nodes st))" by simp
  from topo_rev_mem[OF _ this z step.prems] inv show ?case
    by (auto simp: sort_inv_def)
qed

declare visit.simps [simp del]

lemma precedes_append: "a \<in> set pre \<Longrightarrow> b \<in> set post \<Longrightarrow> precedes a b (pre @ post)"
  by (induction pre) auto

lemma precedes_append_right: "precedes a b xs \<Longrightarrow> precedes a b (xs @ ys)"
  by (induction xs) auto

lemma precedes_index:
  "precedes a b xs \<Longrightarrow> \<exists>i j. i < j \<and> j < length xs \<and> xs ! i = a \<and> xs ! j = b"
proof (induction xs)
  case Nil
  then show ?case by simp
next
  case (Cons x xs)
  show ?case
  proof (cases "x = a")
    case True
    with Cons.prems have "b \<in> set xs" by simp
    then obtain j where "j < length xs" "xs ! j = b" by (auto simp: in_set_conv_nth)
    with True show ?thesis by (intro exI[of _ 0] exI[of _ "Suc j"]) simp
  next
    case False
    with Cons obtain i j where "i < j" "j < length xs" "xs ! i = a" "xs ! j = b" by auto
    then show ?thesis by (intro exI[of _ "Suc i"] exI[of _ "Suc j"]) simp
  qed
qed

lemma topo_rev_precedes:
  "topo_rev I (rev xs) \<Longrightarrow> u \<in> set xs \<Longrightarrow> v \<in> set (connected u) \<Longrightarrow> v \<in> I \<Longrightarrow>
     \<exists>w\<in>set xs. node_id w = v \<and> precedes w u xs"
proof (induction xs rule: rev_induct)
  case Nil
  then show ?case by simp
next
  case (snoc y xs)
  show ?case
  proof (cases "u \<in> set xs")
    case True
    with snoc obtain w where "w \<in> set xs" "node_id w = v" "precedes w u xs" by auto
    then show ?thesis by (auto intro: precedes_append_right)
  next
    case False
    with snoc.prems have uy: "u = y" by simp
    with snoc.prems obtain w where w: "w \<in> set xs" "node_id w = v" by auto
    then have "precedes w y (xs @ [y])" by (intro precedes_append) simp_all
    with w uy show ?thesis by auto
  qed
qed

lemma sort_inv_init: "sort_inv nodes init_state"
  by (simp add: sort_inv_def init_state_def)

lemma visit_triggers_append:
  "visit_triggers n nodes (a @ b) st =
     (case visit_triggers n nodes a st of
        None \<Rightarrow> None
      | Some (Inl e) \<Rightarrow> Some (Inl e)
      | Some (Inr st1) \<Rightarrow> visit_triggers n nodes b st1)"
  by (induction a arbitrary: st) (auto split: option.splits sum.splits)

lemma visit_triggers_inv:
  "visit_triggers n nodes ts st = Some (Inr st') \<Longrightarrow> sort_inv nodes st \<Longrightarrow>
     sort_inv nodes st' \<and> visiting st' = visiting st \<and> extends nodes (node_id ` set ts) st st' \<and>
     (\<forall>t\<in>set ts. node_id t \<in> ids nodes \<longrightarrow> node_id t \<in> visited st')"
proof (induction ts arbitrary: st)
  case Nil
  then show ?case by (simp add: extends_refl)
next
  case (Cons t ts)
  from Cons.prems(1) obtain st1 where a: "visit n nodes (node_id t) st = Some (Inr st1)"
    and b: "visit_triggers n nodes ts st1 = Some (Inr st')"
    by (auto split: option.splits sum.splits)
  from visit_inv(1)[OF a Cons.prems(2)] have inv1: "sort_inv nodes st1"
    and ext1: "extends nodes {node_id t} st st1"
    and t1: "node_id t \<in> ids nodes \<longrightarrow> node_id t \<in> visited st1" by simp_all
  from Cons.IH[OF b inv1] have inv': "sort_inv nodes st'" and vis: "visiting st' = visiting st1"
    and ext2: "extends nodes (node_id ` set ts) st1 st'"
    and t2: "\<forall>t\<in>set ts. node_id t \<in> ids nodes \<longrightarrow> node_id t \<in> visited st'" by simp_all
  from extends_trans[OF ext1 ext2] have "extends nodes (node_id ` set (t # ts)) st st'" by simp
  moreover from extends_visited[OF ext2 inv1 inv'] t1 t2
  have "\<forall>t\<in>set (t # ts). node_id t \<in> ids nodes \<longrightarrow> node_id t \<in> visited st'" by auto
  ultimately show ?case using inv' vis visit_visiting(1)[OF a] by simp
qed

lemma visit_triggers_total:
  "card (ids nodes - visiting st) < n \<Longrightarrow> visit_triggers n nodes ts st \<noteq> None"
proof (induction ts arbitrary: st)
  case Nil
  then show ?case by simp
next
  case (Cons t ts)
  from visit_total(1)[OF Cons.prems] obtain r where r: "visit n nodes (node_id t) st = Some r"
    by auto
  show ?case
  proof (cases r)
    case (Inl e)
    with r show ?thesis by simp
  next
    case (Inr st1)
    with r have "visiting st1 = visiting st" by (simp add: visit_visiting(1))
    with Cons r Inr show ?thesis by simp
  qed
qed

lemma visit_triggers_error:
  "visit_triggers n nodes ts st = Some (Inl e) \<Longrightarrow> e = circular"
  by (induction ts arbitrary: st) (auto split: option.splits sum.splits dest: visit_error(1))

lemma visit_triggers_acyclic:
  "acyclic (edges nodes) \<Longrightarrow> visiting st = {} \<Longrightarrow> visit_triggers n nodes ts st \<noteq> Some (Inl e)"
proof (induction ts arbitrary: st)
  case Nil
  then show ?case by simp
next
  case (Cons t ts)
  from Cons.prems have ne: "visit n nodes (node_id t) st \<noteq> Some (Inl e)"
    by (intro visit_acyclic(1)) simp_all
  show ?case
  proof (cases "visit n nodes (node_id t) st")
    case None
    then show ?thesis by simp
  next
    case (Some r)
    show ?thesis
    proof (cases r)
      case (Inl e')
      with Some ne show ?thesis by auto
    next
      case (Inr st1)
      with Some Cons.prems have "visiting st1 = {}" by (simp add: visit_visiting(1))
      with Cons Some Inr show ?thesis by simp
    qed
  qed
qed

lemma visit_remaining_eq:
  "visiting st = {} \<Longrightarrow>
     visit_remaining (Suc n) nodes xs st = visit_triggers (Suc n) nodes xs st"
proof (induction xs arbitrary: st)
  case Nil
  then show ?case by simp
next
  case (Cons x xs)
  show ?case
  proof (cases "node_id x \<in> visited st")
    case True
    with Cons.prems have "visit (Suc n) nodes (node_id x) st = Some (Inr st)"
      by (simp add: visit.simps)
    with Cons True show ?thesis by simp
  next
    case False
    show ?thesis
    proof (cases "visit (Suc n) nodes (node_id x) st")
      case None
      with False show ?thesis by simp
    next
      case (Some r)
      show ?thesis
      proof (cases r)
        case (Inl e)
        with Some False show ?thesis by simp
      next
        case (Inr st1)
        with Some Cons.prems have "visiting st1 = {}" by (simp add: visit_visiting(1))
        from Cons.IH[OF this] Some Inr False show ?thesis by simp
      qed
    qed
  qed
qed

lemma topologicalSort_seeds:
  "topologicalSort nodes =
     (case visit_triggers (Suc (length nodes)) nodes
             (filter (\<lambda>m. node_type m = ''trigger'') nodes @ nodes) init_state of
        None \<Rightarrow> None
      | Some (Inl e) \<Rightarrow> Some (Inl e)
      | Some (Inr st) \<Rightarrow> Some (Inr (sorted_nodes st)))"
proof -
  let ?ts = "filter (\<lambda>m. node_type m = ''trigger'') nodes"
  let ?N = "Suc (length nodes)"
  show ?thesis
  proof (cases "visit_triggers ?N nodes ?ts init_state")
    case None
    then show ?thesis
      by (simp add: topologicalSort_def topologicalSort_fuel_def visit_triggers_append init_state_def)
  next
    case (Some r)
    show ?thesis
    proof (cases r)
      case (Inl e)
      with Some show ?thesis
        by (simp add: topologicalSort_def topologicalSort_fuel_def visit_triggers_append init_state_def)
    next
      case (Inr st1)
      from visit_triggers_inv[OF Some[unfolded Inr] sort_inv_init]
      have "visiting st1 = {}" by (simp add: init_state_def)
      from visit_remaining_eq[OF this] Some Inr show ?thesis
        by (simp add: topologicalSort_def topologicalSort_fuel_def visit_triggers_append init_state_def)
    qed
  qed
qed

lemma set_seeds: "set (seeds nodes) = set nodes"
  by (auto simp: seeds_def)

lemma card_ids_fuel: "card (ids nodes - visiting init_state) < Suc (length nodes)"
proof -
  have "card (ids nodes) \<le> length nodes"
    unfolding ids_def by (metis card_image_le card_length le_trans List.finite_set)
  then show ?thesis by (simp add: init_state_def)
qed

lemma sorted_sub_nodes: "sort_inv nodes st \<Longrightarrow> set (sorted_nodes st) \<subseteq> set nodes"
  by (auto simp: sort_inv_def dest: find_id)

lemma visited_mem:
  assumes inv: "sort_inv nodes st" and d: "distinct (map node_id nodes)"
    and a: "a \<in> set nodes" and v: "node_id a \<in> visited st"
  shows "a \<in> set (sorted_nodes st)"
proof -
  from inv v obtain w where w: "w \<in> set (sorted_nodes st)" "node_id w = node_id a"
    by (auto simp: sort_inv_def)
  with sorted_sub_nodes[OF inv] have "w \<in> set nodes" by auto
  with d a w(2) have "w = a" by (auto simp: distinct_map inj_on_def)
  with w show ?thesis by simp
qed

lemma stage_order:
  assumes d: "distinct (map node_id nodes)"
    and sub: "set ts1 \<subseteq> set nodes"
    and r1: "visit_triggers n nodes ts1 init_state = Some (Inr st1)"
    and r2: "visit_triggers n nodes ts2 st1 = Some (Inr st2)"
    and a: "a \<in> set nodes" "reachable_from nodes ts1 a"
    and b: "b \<in> set (sorted_nodes st2)" "\<not> reachable_from nodes ts1 b"
  shows "precedes a b (sorted_nodes st2)"
proof -
  from visit_triggers_inv[OF r1 sort_inv_init]
  have inv1: "sort_inv nodes st1" and ext1: "extends nodes (node_id ` set ts1) init_state st1"
    and vis1: "\<forall>t\<in>set ts1. node_id t \<in> ids nodes \<longrightarrow> node_id t \<in> visited st1" by simp_all
  from visit_triggers_inv[OF r2 inv1]
  have ext2: "extends nodes (node_id ` set ts2) st1 st2" by simp
  then obtain new where new: "sorted_nodes st2 = sorted_nodes st1 @ new"
    by (auto simp: extends_def)
  from a(2) obtain s where s: "s \<in> set ts1" "(node_id s, node_id a) \<in> (edges nodes)\<^sup>*"
    by (auto simp: reachable_from_def)
  from s(1) sub vis1 have "node_id s \<in> visited st1" by (auto simp: ids_def)
  from sort_inv_closed[OF inv1 this s(2)] a(1) have "node_id a \<in> visited st1"
    by (auto simp: ids_def)
  from visited_mem[OF inv1 d a(1) this] have a1: "a \<in> set (sorted_nodes st1)" .
  from ext1 b(2) have "b \<notin> set (sorted_nodes st1)"
    by (auto simp: extends_def reachable_from_def init_state_def)
  with b(1) new have "b \<in> set new" by simp
  with a1 show ?thesis unfolding new by (rule precedes_append)
qed

lemma edge_source_ids: "(x, y) \<in> edges nodes \<Longrightarrow> x \<in> ids nodes"
  using find_None_ids[of x nodes] by (auto simp: edges_def)

lemma rtrancl_source_ids: "(x, y) \<in> (edges nodes)\<^sup>* \<Longrightarrow> y \<in> ids nodes \<Longrightarrow> x \<in> ids nodes"
  by (induction rule: converse_rtrancl_induct) (auto dest: edge_source_ids)

lemma topo_closed:
  assumes topo: "topo_rev (ids nodes) xs"
    and fnd: "\<forall>u\<in>set xs. find (\<lambda>m. node_id m = node_id u) nodes = Some u"
    and x: "x \<in> node_id ` set xs"
    and r: "(x, y) \<in> (edges nodes)\<^sup>*" and y: "y \<in> ids nodes"
  shows "y \<in> node_id ` set xs"
  using r y
proof (induction rule: rtrancl_induct)
  case base
  from x show ?case .
next
  case (step y z)
  from step.hyps(2) obtain u where u: "find (\<lambda>m. node_id m = y) nodes = Some u"
    and z: "z \<in> set (connected u)" by (auto simp: edges_def)
  from step.hyps(2) have "y \<in> ids nodes" by (rule edge_source_ids)
  with step.IH obtain w where w: "w \<in> set xs" "node_id w = y" by auto
  with fnd u have "w = u" by auto
  with w have "u \<in> set xs" by simp
  from topo_rev_mem[OF topo this z step.prems] show ?case .
qed

lemma topo_no_cycle:
  "topo_rev (ids nodes) xs \<Longrightarrow> distinct (map node_id xs) \<Longrightarrow>
   \<forall>u\<in>set xs. find (\<lambda>m. node_id m = node_id u) nodes = Some u \<Longrightarrow>
   c \<in> node_id ` set xs \<Longrightarrow> (c, c) \<notin> (edges nodes)\<^sup>+"
proof (induction xs arbitrary: c)
  case Nil
  then show ?case by simp
next
  case (Cons u earlier)
  from Cons.prems have topo': "topo_rev (ids nodes) earlier"
    and d': "distinct (map node_id earlier)"
    and f': "\<forall>w\<in>set earlier. find (\<lambda>m. node_id m = node_id w) nodes = Some w"
    by simp_all
  show ?case
  proof (cases "c \<in> node_id ` set earlier")
    case True
    from Cons.IH[OF topo' d' f' True] show ?thesis .
  next
    case False
    with Cons.prems(4) have cu: "c = node_id u" by auto
    show ?thesis
    proof
      assume "(c, c) \<in> (edges nodes)\<^sup>+"
      then obtain v where cv: "(c, v) \<in> edges nodes" and vc: "(v, c) \<in> (edges nodes)\<^sup>*"
        by (auto dest: tranclD)
      from cv have cid: "c \<in> ids nodes" by (rule edge_source_ids)
      from rtrancl_source_ids[OF vc cid] have vid: "v \<in> ids nodes" .
      from cv obtain u' where "find (\<lambda>m. node_id m = c) nodes = Some u'" "v \<in> set (connected u')"
        by (auto simp: edges_def)
      with Cons.prems(3) cu have "v \<in> set (connected u)" by simp
      with Cons.prems(1) vid have "v \<in> node_id ` set earlier" by simp
      from topo_closed[OF topo' f' this vc cid] False show False by simp
    qed
  qed
qed

lemma topologicalSort_cycle:
  assumes t: "t \<in> set nodes" "node_type t = ''trigger''"
    and reach: "(node_id t, c) \<in> (edges nodes)\<^sup>*"
    and cyc: "(c, c) \<in> (edges nodes)\<^sup>+"
  shows "topologicalSort nodes = Some (Inl circular)"
proof -
  let ?N = "Suc (length nodes)"
  have nn: "visit_triggers ?N nodes (seeds nodes) init_state \<noteq> None"
    by (rule visit_triggers_total[OF card_ids_fuel])
  have "\<And>st. visit_triggers ?N nodes (seeds nodes) init_state \<noteq> Some (Inr st)"
  proof
    fix st assume st: "visit_triggers ?N nodes (seeds nodes) init_state = Some (Inr st)"
    from visit_triggers_inv[OF st sort_inv_init]
    have inv: "sort_inv nodes st"
      and vis: "\<forall>t\<in>set (seeds nodes). node_id t \<in> ids nodes \<longrightarrow> node_id t \<in> visited st"
      by simp_all
    from t(1) vis have tv: "node_id t \<in> visited st" by (auto simp: set_seeds ids_def)
    from cyc have cid: "c \<in> ids nodes" by (auto dest: tranclD edge_source_ids)
    from sort_inv_closed[OF inv tv reach cid] inv
    have "c \<in> node_id ` set (rev (sorted_nodes st))" by (simp add: sort_inv_def)
    moreover from inv have "topo_rev (ids nodes) (rev (sorted_nodes st))"
      "distinct (map node_id (rev (sorted_nodes st)))"
      "\<forall>u\<in>set (rev (sorted_nodes st)). find (\<lambda>m. node_id m = node_id u) nodes = Some u"
      by (simp_all add: sort_inv_def distinct_rev rev_map[symmetric])
    ultimately have "(c, c) \<notin> (edges nodes)\<^sup>+" by (intro topo_no_cycle)
    with cyc show False by simp
  qed
  with nn obtain e where e: "visit_triggers ?N nodes (seeds nodes) init_state = Some (Inl e)"
    by (metis not_Some_eq sum.exhaust)
  from visit_triggers_error[OF e] e show ?thesis
    by (simp add: topologicalSort_seeds seeds_def)
qed

lemma topologicalSort_total: "topologicalSort nodes \<noteq> None"
proof -
  have "visit_triggers (Suc (length nodes)) nodes (seeds nodes) init_state \<noteq> None"
    by (rule visit_triggers_total[OF card_ids_fuel])
  then show ?thesis
    by (auto simp: topologicalSort_seeds seeds_def split: option.splits sum.splits)
qed

lemma topologicalSort_error: "topologicalSort nodes = Some (Inl e) \<Longrightarrow> e = circular"
  by (auto simp: topologicalSort_seeds split: option.splits sum.splits dest: visit_triggers_error)

lemma edges_acyclic_rank:
  fixes rank :: "string \<Rightarrow> nat"
  assumes "\<forall>u\<in>set nodes. \<forall>v\<in>set (connected u). rank v < rank (node_id u)"
  shows "acyclic (edges nodes)"
proof (rule acyclicI_order[where f = rank])
  fix a b assume "(a, b) \<in> edges nodes"
  then obtain u where u: "find (\<lambda>m. node_id m = a) nodes = Some u" "b \<in> set (connected u)"
    by (auto simp: edges_def)
  from find_id[OF u(1)] u(2) assms show "rank b < rank a" by auto
qed

lemma e2e_acyclic: "acyclic (edges e2e_nodes)"
  by (rule edges_acyclic_rank[where rank =
        "\<lambda>s. if s = ''t'' then 3 else if s = ''d'' then 2 else if s = ''f'' then 1 else 0"])
     (simp add: e2e_nodes_def)

section \<open>Fuel\<close>

text \<open>More fuel never changes a result, and one more than the number of nodes is enough.\<close>

lemma visit_triggers_fuel_mono:
  "visit_triggers n nodes ts st = Some r \<Longrightarrow> n \<le> m \<Longrightarrow> visit_triggers m nodes ts st = Some r"
proof (induction ts arbitrary: st)
  case Nil
  then show ?case by simp
next
  case (Cons t ts)
  from Cons.prems(1) obtain r1 where r1: "visit n nodes (node_id t) st = Some r1"
    by (auto split: option.splits)
  from visit_fuel_mono(1)[OF r1 Cons.prems(2)] have r1': "visit m nodes (node_id t) st = Some r1" .
  show ?case
  proof (cases r1)
    case (Inl e)
    with r1 r1' Cons.prems(1) show ?thesis by auto
  next
    case (Inr st1)
    with r1 Cons.prems(1) have "visit_triggers n nodes ts st1 = Some r" by simp
    from Cons.IH[OF this Cons.prems(2)] r1' Inr show ?thesis by simp
  qed
qed

lemma visit_remaining_fuel_mono:
  "visit_remaining n nodes xs st = Some r \<Longrightarrow> n \<le> m \<Longrightarrow> visit_remaining m nodes xs st = Some r"
proof (induction xs arbitrary: st)
  case Nil
  then show ?case by simp
next
  case (Cons x xs)
  show ?case
  proof (cases "node_id x \<in> visited st")
    case True
    with Cons show ?thesis by simp
  next
    case False
    with Cons.prems(1) obtain r1 where r1: "visit n nodes (node_id x) st = Some r1"
      by (auto split: option.splits)
    from visit_fuel_mono(1)[OF r1 Cons.prems(2)] have r1': "visit m nodes (node_id x) st = Some r1" .
    show ?thesis
    proof (cases r1)
      case (Inl e)
      with r1 r1' Cons.prems(1) False show ?thesis by auto
    next
      case (Inr st1)
      with r1 Cons.prems(1) False have "visit_remaining n nodes xs st1 = Some r" by simp
      from Cons.IH[OF this Cons.prems(2)] r1' Inr False show ?thesis by simp
    qed
  qed
qed

lemma topologicalSort_fuel_mono:
  assumes "topologicalSort_fuel n nodes = Some r" and "n \<le> m"
  shows "topologicalSort_fuel m nodes = Some r"
proof -
  let ?ts = "filter (\<lambda>m. node_type m = ''trigger'') nodes"
  let ?i = "\<lparr>sorted_nodes = [], visited = {}, visiting = {}\<rparr>"
  from assms(1) obtain r1 where r1: "visit_triggers n nodes ?ts ?i = Some r1"
    by (auto simp: topologicalSort_fuel_def split: option.splits)
  from visit_triggers_fuel_mono[OF r1 assms(2)] have r1': "visit_triggers m nodes ?ts ?i = Some r1" .
  show ?thesis
  proof (cases r1)
    case (Inl e)
    with r1 r1' assms(1) show ?thesis by (auto simp: topologicalSort_fuel_def)
  next
    case (Inr st1)
    with r1 assms(1) obtain r2 where r2: "visit_remaining n nodes nodes st1 = Some r2"
      by (auto simp: topologicalSort_fuel_def split: option.splits)
    from visit_remaining_fuel_mono[OF r2 assms(2)] r1 r1' Inr r2 assms(1) show ?thesis
      by (auto simp: topologicalSort_fuel_def)
  qed
qed

lemma topologicalSort_fuel_enough:
  "length nodes < m \<Longrightarrow> topologicalSort_fuel m nodes = topologicalSort nodes"
proof -
  assume "length nodes < m"
  then have le: "Suc (length nodes) \<le> m" by simp
  from topologicalSort_total[of nodes] obtain r where "topologicalSort nodes = Some r" by auto
  then have r: "topologicalSort_fuel (Suc (length nodes)) nodes = Some r"
    by (simp add: topologicalSort_def)
  from topologicalSort_fuel_mono[OF r le] r show ?thesis by (simp add: topologicalSort_def)
qed

section \<open>Properties of the fan-out and of the run\<close>

declare show_nat.simps [simp del]

lemma digit_char_inj: "a < 10 \<Longrightarrow> b < 10 \<Longrightarrow> digit_char a = digit_char b \<Longrightarrow> a = b"
proof -
  assume a: "a < 10" and b: "b < 10" and eq: "digit_char a = digit_char b"
  from eq have "(of_char (digit_char a) :: nat) = of_char (digit_char b)" by simp
  with a b show "a = b" by (simp add: digit_char_def)
qed

lemma show_nat_nonempty: "show_nat n \<noteq> []"
  by (subst show_nat.simps) simp

lemma show_nat_inj: "show_nat m = show_nat n \<Longrightarrow> m = n"
proof (induction m arbitrary: n rule: show_nat.induct)
  case (1 m)
  show ?case
  proof (cases "m < 10")
    case m: True
    show ?thesis
    proof (cases "n < 10")
      case True
      with m "1.prems" show ?thesis
        by (simp add: show_nat.simps[of m] show_nat.simps[of n] digit_char_inj)
    next
      case False
      with m "1.prems" show_nat_nonempty[of "n div 10"] show ?thesis
        by (simp add: show_nat.simps[of m] show_nat.simps[of n] Cons_eq_append_conv)
    qed
  next
    case m: False
    show ?thesis
    proof (cases "n < 10")
      case True
      with m "1.prems" show_nat_nonempty[of "m div 10"] show ?thesis
        by (simp add: show_nat.simps[of m] show_nat.simps[of n] append_eq_Cons_conv)
    next
      case False
      with m "1.prems" have eq: "show_nat (m div 10) = show_nat (n div 10)"
        and dg: "digit_char (m mod 10) = digit_char (n mod 10)"
        by (simp_all add: show_nat.simps[of m] show_nat.simps[of n])
      from "1.IH"[OF m eq] have "m div 10 = n div 10" .
      moreover from dg have "m mod 10 = n mod 10" by (intro digit_char_inj) simp_all
      ultimately show ?thesis by (metis div_mult_mod_eq)
    qed
  qed
qed

lemma fan_out_array_ids:
  "map executionId (fan_out node context (JArr xs)) =
     map (\<lambda>i. executionId context @ ''-'' @ node_id node @ ''-'' @ show_nat i) [0..<length xs]"
proof -
  let ?f = "\<lambda>i. executionId context @ ''-'' @ node_id node @ ''-'' @ show_nat i"
  have "map executionId (fan_out node context (JArr xs)) = map (?f \<circ> fst) (enumerate 0 xs)"
    by (simp add: fan_out_def comp_def case_prod_unfold)
  also have "\<dots> = map ?f (map fst (enumerate 0 xs))" by (simp only: map_map)
  also have "\<dots> = map ?f [0..<length xs]" by (simp only: map_fst_enumerate add_0)
  finally show ?thesis .
qed

lemma fan_out_array_distinct: "distinct (map executionId (fan_out node context (JArr xs)))"
  unfolding fan_out_array_ids
  by (auto simp: distinct_map inj_on_def dest: show_nat_inj)

lemma fan_out_array_length: "length (fan_out node context (JArr xs)) = length xs"
  by (simp add: fan_out_def)

lemma fan_out_array_nth:
  "i < length xs \<Longrightarrow>
     fan_out node context (JArr xs) ! i =
       \<lparr>executionId = executionId context @ ''-'' @ node_id node @ ''-'' @ show_nat i,
        data = xs ! i,
        metadata = set_prop (context_key node) (xs ! i) (metadata context)\<rparr>"
  by (simp add: fan_out_def nth_enumerate_eq)

lemma map_of_set_prop: "map_of (set_prop k v kvs) = (map_of kvs)(k \<mapsto> v)"
  by (simp add: set_prop_def update_conv')

lemma fan_out_single:
  "(\<forall>xs. r \<noteq> JArr xs) \<Longrightarrow> r \<noteq> JNull \<Longrightarrow> r \<noteq> JUndefined \<Longrightarrow>
     fan_out node context r =
       [\<lparr>executionId = executionId context, data = r,
         metadata = set_prop (context_key node) r (metadata context)\<rparr>]"
  by (cases r) (simp_all add: fan_out_def)

lemma fan_out_nullish: "r = JNull \<or> r = JUndefined \<Longrightarrow> fan_out node context r = []"
  by (auto simp: fan_out_def)

lemma process_contexts_acc:
  "process_contexts env node cs acc st =
     (acc @ fst (process_contexts env node cs [] st), snd (process_contexts env node cs [] st))"
proof (induction cs arbitrary: acc st)
  case Nil
  then show ?case by simp
next
  case (Cons c cs)
  obtain r st1 where r: "executeNode env node c st = (r, st1)"
    by (cases "executeNode env node c st")
  show ?case
  proof (cases r)
    case (Inl e)
    with r Cons[of acc st1] Cons[of "[]" st1] show ?thesis by simp
  next
    case (Inr v)
    with r Cons[of "acc @ fan_out node c v" st1] Cons[of "fan_out node c v" st1]
    show ?thesis by simp
  qed
qed

lemma process_contexts_append:
  "process_contexts env node pre [] st = (out1, st1) \<Longrightarrow>
   process_contexts env node post [] st1 = (out2, st2) \<Longrightarrow>
   process_contexts env node (pre @ post) [] st = (out1 @ out2, st2)"
proof (induction pre arbitrary: out1 st)
  case Nil
  then show ?case by simp
next
  case (Cons c cs)
  obtain r st' where r: "executeNode env node c st = (r, st')"
    by (cases "executeNode env node c st")
  obtain o' s' where p: "process_contexts env node cs [] st' = (o', s')"
    by (cases "process_contexts env node cs [] st'")
  show ?case
  proof (cases r)
    case (Inl e)
    with r p Cons.prems(1) have "out1 = o'" "st1 = s'" by simp_all
    with Cons.IH[of st' o'] p Cons.prems(2) r Inl show ?thesis by simp
  next
    case (Inr v)
    from Cons.prems(1) r Inr p have "out1 = fan_out node c v @ o'" "st1 = s'"
      using process_contexts_acc[of env node cs "fan_out node c v" st'] by simp_all
    moreover from Cons.IH[of st' o'] p Cons.prems(2) \<open>st1 = s'\<close>
    have "process_contexts env node (cs @ post) [] st' = (o' @ out2, st2)" by simp
    ultimately show ?thesis
      using r Inr process_contexts_acc[of env node "cs @ post" "fan_out node c v" st'] by simp
  qed
qed

lemma run_nodes_append:
  "run_nodes env pre cs st = (c1, s1) \<Longrightarrow> c1 \<noteq> [] \<Longrightarrow>
     run_nodes env (pre @ rest) cs st = run_nodes env rest c1 s1"
proof (induction pre arbitrary: cs st)
  case Nil
  then show ?case by simp
next
  case (Cons n ns)
  obtain new st' where p: "process_contexts env n cs [] st = (new, st')"
    by (cases "process_contexts env n cs [] st")
  with Cons show ?case by (cases "new = []") auto
qed

lemma call_frame:
  "call env name body st = (r, st1) \<Longrightarrow> store_log st1 = store_log st"
  by (auto simp: call_def split: prod.splits)

lemma executeNode_frame:
  "executeNode env node context st = (r, st1) \<Longrightarrow> store_log st1 = store_log st"
  unfolding executeNode_def executeNewsDiscoveryNode_def executeRssAggregatorNode_def
    executeGoogleScholarNode_def executePerplexityResearchNode_def
    executeMultiSourceSynthesizerNode_def executeAiProcessorNode_def executePublisherNode_def
  by (auto simp: Let_def split: if_splits prod.splits sum.splits dest: call_frame)

lemma process_contexts_frame:
  "process_contexts env node cs acc st = (out, st1) \<Longrightarrow> store_log st1 = store_log st"
proof (induction cs arbitrary: acc st)
  case Nil
  then show ?case by simp
next
  case (Cons c cs)
  obtain r st' where r: "executeNode env node c st = (r, st')" by (cases "executeNode env node c st")
  from executeNode_frame[OF r] have "store_log st' = store_log st" .
  with Cons r show ?case by (cases r) auto
qed

lemma run_nodes_frame:
  "run_nodes env ns cs st = (out, st1) \<Longrightarrow> store_log st1 = store_log st"
proof (induction ns arbitrary: cs st)
  case Nil
  then show ?case by simp
next
  case (Cons n ns)
  obtain new st' where p: "process_contexts env n cs [] st = (new, st')"
    by (cases "process_contexts env n cs [] st")
  from process_contexts_frame[OF p] have "store_log st' = store_log st" .
  with Cons p show ?case by (cases "new = []") auto
qed

lemma create_execution_log:
  "create_execution env workflowId st = (r, st1) \<Longrightarrow>
     \<exists>flds. store_log st1 = store_log st @ [Insert flds] \<and> f_status flds = Some Running \<and>
       f_completed_at flds = None \<and> calls st1 = calls st"
  by (auto simp: create_execution_def no_fields_def Let_def split: prod.splits)

lemma executeWorkflow_insert_error:
  "create_execution env workflowId st = (Inl e, st1) \<Longrightarrow>
     executeWorkflow env workflowId nodes triggerData st = Some (Inl e, st1)"
  by (simp add: executeWorkflow_def)

lemma executeWorkflow_sorted:
  assumes "create_execution env workflowId st = (Inr execution, st1)"
    and "topologicalSort nodes = Some (Inr sortedNodes)"
    and "run_nodes env sortedNodes (initial_contexts execution triggerData) st1 = (final, st2)"
  shows "executeWorkflow env workflowId nodes triggerData st =
     Some (Inr [execution\<lparr>status := Completed\<rparr>],
       store_update env (exec_id execution)
         (no_fields\<lparr>f_status := Some Completed,
            f_completed_at := Some (toISOString env (now env (world st2))),
            f_result := Some (JObj
              [(''contexts'', JNum (of_nat (length final))),
               (''final_results'', JArr (map data final))])\<rparr>) st2)"
  using assms by (simp add: executeWorkflow_def try_block_def)

lemma executeWorkflow_sort_error:
  assumes "create_execution env workflowId st = (Inr execution, st1)"
    and "topologicalSort nodes = Some (Inl e)"
  shows "executeWorkflow env workflowId nodes triggerData st =
     Some (Inl e,
       store_update env (exec_id execution)
         (no_fields\<lparr>f_status := Some Failed,
            f_completed_at := Some (toISOString env (now env (world st1))),
            f_error_message := Some (message_of e)\<rparr>) st1)"
  using assms by (simp add: executeWorkflow_def try_block_def)

lemma store_update_log:
  "store_log (store_update env rid flds st) = store_log st @ [Update rid flds]"
  "calls (store_update env rid flds st) = calls st"
  by (simp_all add: store_update_def)

lemma create_stub: "create_execution stub_env ''wf'' st0 = (Inr run_record, snd (create_execution stub_env ''wf'' st0))"
proof -
  have "fst (create_execution stub_env ''wf'' st0) = Inr run_record" by code_simp
  then show ?thesis by (simp add: prod_eq_iff)
qed

lemma cyclic_edges:
  "(''t'', ''a'') \<in> edges cyclic_nodes" "(''a'', ''b'') \<in> edges cyclic_nodes"
  "(''b'', ''a'') \<in> edges cyclic_nodes"
  by (simp_all add: edges_def cyclic_nodes_def)

section \<open>The four-node pipeline with any collaborators\<close>

text \<open>
  Whatever the collaborators answer, the run of the four-node pipeline without trigger
  data calls the publish function once, before anything else, and ends with no context:
  either the publish call fails and its context is dropped, or it succeeds and the
  filter rejects the published payload, which has neither title nor content.
\<close>

lemma e2e_sorted:
  "topologicalSort e2e_nodes = Some (Inr [e2e_nodes ! 3, e2e_nodes ! 2, e2e_nodes ! 1, e2e_nodes ! 0])"
  by code_simp

lemma filter_rejects_published:
  "executeFilterNode env (e2e_nodes ! 2)
     \<lparr>executionId = i, data = JObj (set_prop ''execution_context'' x
        (set_prop ''published_article'' y [])), metadata = m\<rparr> = Inr JNull"
  by (simp add: executeFilterNode_def e2e_nodes_def cfg_def js_or_def iterate_def bind_def
      keyword_rule_def filter_rejects_def set_prop_def chain_includes_def)

lemma e2e_run_any_collaborators:
  assumes create: "create_execution env workflowId st = (Inr execution, st1)"
  shows "\<exists>st2. executeWorkflow env workflowId e2e_nodes JUndefined st =
      Some (Inr [execution\<lparr>status := Completed\<rparr>],
        store_update env (exec_id execution)
          (no_fields\<lparr>f_status := Some Completed,
             f_completed_at := Some (toISOString env (now env (world st2))),
             f_result := Some (JObj [(''contexts'', JNum 0), (''final_results'', JArr [])])\<rparr>) st2) \<and>
      map fst (calls st2) = map fst (calls st1) @ [''create-article-from-ai'']"
proof -
  let ?ctx = "initial_contexts execution JUndefined"
  obtain r st2 where pub: "executeNode env (e2e_nodes ! 3) (hd ?ctx) st1 = (r, st2)"
    by (cases "executeNode env (e2e_nodes ! 3) (hd ?ctx) st1")
  then have cl: "map fst (calls st2) = map fst (calls st1) @ [''create-article-from-ai'']"
    by (auto simp: executeNode_def executePublisherNode_def e2e_nodes_def initial_contexts_def
        js_or_def bind_def call_def Let_def template_str_def split: prod.splits)
  have run: "run_nodes env [e2e_nodes ! 3, e2e_nodes ! 2, e2e_nodes ! 1, e2e_nodes ! 0] ?ctx st1 = ([], st2)"
  proof (cases r)
    case (Inl e)
    with pub show ?thesis by (simp add: initial_contexts_def)
  next
    case (Inr v)
    with pub obtain y where v: "v = JObj (set_prop ''execution_context'' (JStr (exec_id execution))
        (set_prop ''published_article'' y []))"
      by (auto simp: executeNode_def executePublisherNode_def e2e_nodes_def initial_contexts_def
          js_or_def bind_def call_def Let_def template_str_def split: prod.splits sum.splits)
    have flt: "\<And>s. executeNode env (e2e_nodes ! 2)
         \<lparr>executionId = exec_id execution, data = v,
          metadata = set_prop (context_key (e2e_nodes ! 3)) v []\<rparr> s = (Inr JNull, s)"
      unfolding v using filter_rejects_published
      by (simp add: executeNode_def e2e_nodes_def)
    from pub Inr v flt show ?thesis
      by (simp add: initial_contexts_def fan_out_def set_prop_def)
  qed
  from executeWorkflow_sorted[OF create e2e_sorted run] cl show ?thesis by auto
qed

section \<open>Properties of the filter node\<close>










section \<open>The claims\<close>

text \<open>
  C1. For every acyclic node list with pairwise distinct ids the sort returns, and its
  output holds every input node exactly once. For every edge \<open>u \<rightarrow> v\<close> of a node \<open>u\<close>'s
  \<^verbatim>\<open>connected\<close> list whose target \<open>v\<close> is the id of an input node, that node stands
  earlier in the output than \<open>u\<close>. The visits start from the trigger nodes in input order
  and then from every node in input order: for every prefix of that sequence of starts,
  each node that is one of the prefix or downstream of it stands earlier in the output
  than each node that is not (so what the triggers reach comes first, and the remaining
  nodes follow in input order, each after its own downstream nodes).
\<close>

theorem topologicalSort_acyclic:
  assumes d: "distinct (map node_id nodes)" and ac: "acyclic (edges nodes)"
  shows "\<exists>out. topologicalSort nodes = Some (Inr out) \<and> mset out = mset nodes \<and>
           (\<forall>u\<in>set nodes. \<forall>v\<in>set (connected u). \<forall>w\<in>set nodes.
              node_id w = v \<longrightarrow> precedes w u out) \<and>
           (\<forall>k. \<forall>a\<in>set nodes. \<forall>b\<in>set nodes.
              reachable_from nodes (take k (seeds nodes)) a \<and>
              \<not> reachable_from nodes (take k (seeds nodes)) b \<longrightarrow> precedes a b out)"
proof -
  let ?N = "Suc (length nodes)"
  have "visit_triggers ?N nodes (seeds nodes) init_state \<noteq> None"
    by (rule visit_triggers_total[OF card_ids_fuel])
  moreover have "\<And>e. visit_triggers ?N nodes (seeds nodes) init_state \<noteq> Some (Inl e)"
    by (rule visit_triggers_acyclic[OF ac]) (simp add: init_state_def)
  ultimately obtain st where st: "visit_triggers ?N nodes (seeds nodes) init_state = Some (Inr st)"
    by (metis not_Some_eq sum.exhaust)
  then have res: "topologicalSort nodes = Some (Inr (sorted_nodes st))"
    by (simp add: topologicalSort_seeds seeds_def)
  from visit_triggers_inv[OF st sort_inv_init]
  have inv: "sort_inv nodes st"
    and vis: "\<forall>t\<in>set (seeds nodes). node_id t \<in> ids nodes \<longrightarrow> node_id t \<in> visited st"
    by simp_all
  have all: "set nodes \<subseteq> set (sorted_nodes st)"
  proof
    fix u assume u: "u \<in> set nodes"
    with vis have "node_id u \<in> visited st" by (auto simp: set_seeds ids_def)
    from visited_mem[OF inv d u this] show "u \<in> set (sorted_nodes st)" .
  qed
  with sorted_sub_nodes[OF inv] have seteq: "set (sorted_nodes st) = set nodes" by auto
  from inv have "distinct (sorted_nodes st)" by (auto simp: sort_inv_def distinct_map)
  moreover from d have "distinct nodes" by (auto simp: distinct_map)
  ultimately have ms: "mset (sorted_nodes st) = mset nodes"
    using seteq by (simp add: set_eq_iff_mset_eq_distinct)
  have ord: "\<forall>u\<in>set nodes. \<forall>v\<in>set (connected u). \<forall>w\<in>set nodes.
       node_id w = v \<longrightarrow> precedes w u (sorted_nodes st)"
  proof (intro ballI impI)
    fix u v w
    assume u: "u \<in> set nodes" and v: "v \<in> set (connected u)" and w: "w \<in> set nodes" "node_id w = v"
    from inv have "topo_rev (ids nodes) (rev (sorted_nodes st))" by (simp add: sort_inv_def)
    from topo_rev_precedes[OF this _ v] u w seteq
    obtain w' where w': "w' \<in> set nodes" "node_id w' = v" "precedes w' u (sorted_nodes st)"
      by (auto simp: ids_def)
    with d w have "w' = w" by (auto simp: distinct_map inj_on_def)
    with w' show "precedes w u (sorted_nodes st)" by simp
  qed
  have stage: "\<forall>k. \<forall>a\<in>set nodes. \<forall>b\<in>set nodes.
       reachable_from nodes (take k (seeds nodes)) a \<and>
       \<not> reachable_from nodes (take k (seeds nodes)) b \<longrightarrow> precedes a b (sorted_nodes st)"
  proof (intro allI ballI impI, elim conjE)
    fix k a b
    assume a: "a \<in> set nodes" "reachable_from nodes (take k (seeds nodes)) a"
      and b: "b \<in> set nodes" "\<not> reachable_from nodes (take k (seeds nodes)) b"
    from st have "visit_triggers ?N nodes (take k (seeds nodes) @ drop k (seeds nodes)) init_state
        = Some (Inr st)" by simp
    then obtain st1 where
      r1: "visit_triggers ?N nodes (take k (seeds nodes)) init_state = Some (Inr st1)"
      and r2: "visit_triggers ?N nodes (drop k (seeds nodes)) st1 = Some (Inr st)"
      unfolding visit_triggers_append by (auto split: option.splits sum.splits)
    have sub: "set (take k (seeds nodes)) \<subseteq> set nodes"
      using set_take_subset[of k "seeds nodes"] by (simp add: set_seeds)
    from b(1) seteq have "b \<in> set (sorted_nodes st)" by simp
    from stage_order[OF d sub r1 r2 a this b(2)] show "precedes a b (sorted_nodes st)" .
  qed
  from res ms ord stage show ?thesis by blast
qed

theorem topologicalSort_acyclic_witness:
  "distinct (map node_id e2e_nodes) \<and> acyclic (edges e2e_nodes) \<and>
   (\<exists>out. topologicalSort e2e_nodes = Some (Inr out) \<and> mset out = mset e2e_nodes \<and>
      precedes (e2e_nodes ! 1) (e2e_nodes ! 0) out \<and>
      precedes (e2e_nodes ! 3) (e2e_nodes ! 2) out)"
proof -
  have d: "distinct (map node_id e2e_nodes)" by (simp add: e2e_nodes_def)
  from topologicalSort_acyclic[OF d e2e_acyclic] obtain out where
    out: "topologicalSort e2e_nodes = Some (Inr out)" "mset out = mset e2e_nodes"
    and ord: "\<forall>u\<in>set e2e_nodes. \<forall>v\<in>set (connected u). \<forall>w\<in>set e2e_nodes.
              node_id w = v \<longrightarrow> precedes w u out"
    by blast
  have "e2e_nodes ! 0 \<in> set e2e_nodes" "''d'' \<in> set (connected (e2e_nodes ! 0))"
    "e2e_nodes ! 1 \<in> set e2e_nodes" "node_id (e2e_nodes ! 1) = ''d''"
    by (simp_all add: e2e_nodes_def)
  with ord have p1: "precedes (e2e_nodes ! 1) (e2e_nodes ! 0) out" by blast
  have "e2e_nodes ! 2 \<in> set e2e_nodes" "''p'' \<in> set (connected (e2e_nodes ! 2))"
    "e2e_nodes ! 3 \<in> set e2e_nodes" "node_id (e2e_nodes ! 3) = ''p''"
    by (simp_all add: e2e_nodes_def)
  with ord have p2: "precedes (e2e_nodes ! 3) (e2e_nodes ! 2) out" by blast
  from d e2e_acyclic out p1 p2 show ?thesis by blast
qed

text \<open>
  C2. The claim: on the four-node pipeline, with a discovery stub that returns the
  articles "Product launch today" and "Weather update", the run ends with exactly one
  final payload (the launch article) and one publish call. The code does something else.
  The sort emits a node after its downstream nodes, so the order of execution is
  publisher, filter, discovery, trigger. The publisher runs first on the empty root
  payload and publishes an article without content; the filter then rejects that
  payload, which has neither title nor content; no context is left, the discovery node
  is never run, and the record is completed with no final payload. This does not depend
  on what the collaborators answer (\<open>e2e_run_any_collaborators\<close>).
\<close>

theorem e2e_run_publishes_first:
  "topologicalSort e2e_nodes = Some (Inr [e2e_nodes ! 3, e2e_nodes ! 2, e2e_nodes ! 1, e2e_nodes ! 0]) \<and>
   map_option (\<lambda>(r, s). (r, map fst (calls s), map written_status (store_log s), store_log s ! 1))
     (executeWorkflow stub_env ''wf'' e2e_nodes JUndefined st0) =
     Some (Inr [run_record\<lparr>status := Completed\<rparr>],
           [''create-article-from-ai''],
           [Some Running, Some Completed],
           Update ''run''
             (no_fields\<lparr>f_status := Some Completed, f_completed_at := Some ''t0'',
                f_result := Some (JObj [(''contexts'', JNum 0), (''final_results'', JArr [])])\<rparr>))"
  by code_simp

text \<open>
  C3. For every node and every context: when the node executor returns a list of \<open>k\<close>
  elements, the next generation gets exactly \<open>k\<close> contexts, the one at index \<open>i\<close> with the id
  \<^verbatim>\<open>{parent id}-{node id}-{i}\<close> (so the ids are pairwise distinct), with the element as its
  data and with the parent's metadata plus the entry \<^verbatim>\<open>{node type}_{node id}\<close> holding the
  element; when it returns one value that is neither \<^verbatim>\<open>null\<close> nor \<^verbatim>\<open>undefined\<close>, the
  next generation gets one context with the parent's id, that value as data and the
  metadata extended in the same way; when it returns \<^verbatim>\<open>null\<close> or \<^verbatim>\<open>undefined\<close>, the
  next generation gets nothing from this context. The step itself never raises.
\<close>

theorem fan_out_outcomes:
  assumes "executeNode env node context st = (Inr r, st1)"
  shows "\<exists>new. process_contexts env node [context] [] st = (new, st1) \<and>
     (\<forall>xs. r = JArr xs \<longrightarrow>
        length new = length xs \<and> distinct (map executionId new) \<and>
        (\<forall>i<length xs.
           executionId (new ! i) = executionId context @ ''-'' @ node_id node @ ''-'' @ show_nat i \<and>
           data (new ! i) = xs ! i \<and>
           map_of (metadata (new ! i)) =
             (map_of (metadata context))(node_type node @ ''_'' @ node_id node \<mapsto> xs ! i))) \<and>
     ((\<forall>xs. r \<noteq> JArr xs) \<and> r \<noteq> JNull \<and> r \<noteq> JUndefined \<longrightarrow>
        (\<exists>m. new = [\<lparr>executionId = executionId context, data = r, metadata = m\<rparr>] \<and>
           map_of m = (map_of (metadata context))(node_type node @ ''_'' @ node_id node \<mapsto> r))) \<and>
     (r = JNull \<or> r = JUndefined \<longrightarrow> new = [])"
proof -
  have step: "process_contexts env node [context] [] st = (fan_out node context r, st1)"
    using assms by simp
  have arr: "\<forall>xs. r = JArr xs \<longrightarrow>
        length (fan_out node context r) = length xs \<and>
        distinct (map executionId (fan_out node context r)) \<and>
        (\<forall>i<length xs.
           executionId (fan_out node context r ! i) =
             executionId context @ ''-'' @ node_id node @ ''-'' @ show_nat i \<and>
           data (fan_out node context r ! i) = xs ! i \<and>
           map_of (metadata (fan_out node context r ! i)) =
             (map_of (metadata context))(node_type node @ ''_'' @ node_id node \<mapsto> xs ! i))"
    by (auto simp: fan_out_array_length fan_out_array_distinct fan_out_array_nth
        map_of_set_prop context_key_def)
  have single: "(\<forall>xs. r \<noteq> JArr xs) \<and> r \<noteq> JNull \<and> r \<noteq> JUndefined \<longrightarrow>
        (\<exists>m. fan_out node context r =
            [\<lparr>executionId = executionId context, data = r, metadata = m\<rparr>] \<and>
           map_of m = (map_of (metadata context))(node_type node @ ''_'' @ node_id node \<mapsto> r))"
    by (auto simp: fan_out_single map_of_set_prop context_key_def)
  have none: "r = JNull \<or> r = JUndefined \<longrightarrow> fan_out node context r = []"
    by (auto simp: fan_out_nullish)
  from step arr single none show ?thesis by blast
qed

theorem fan_out_outcomes_witness:
  "\<exists>new. process_contexts stub_env (e2e_nodes ! 0)
       [context_of ''run'' (JArr [launch_article, JNull])] [] st0 = (new, st0) \<and>
     length new = 2 \<and> distinct (map executionId new) \<and>
     executionId (new ! 1) = ''run-t-1'' \<and> data (new ! 1) = JNull \<and>
     map_of (metadata (new ! 1)) = [''trigger_t'' \<mapsto> JNull]"
proof -
  have ex: "executeNode stub_env (e2e_nodes ! 0) (context_of ''run'' (JArr [launch_article, JNull])) st0
      = (Inr (JArr [launch_article, JNull]), st0)"
    by (simp add: executeNode_def executeTriggerNode_def e2e_nodes_def context_of_def)
  have one: "show_nat (Suc 0) = ''1''" by code_simp
  from fan_out_outcomes[OF ex] obtain new where
    new: "process_contexts stub_env (e2e_nodes ! 0)
       [context_of ''run'' (JArr [launch_article, JNull])] [] st0 = (new, st0)"
    and arr: "\<forall>xs. JArr [launch_article, JNull] = JArr xs \<longrightarrow>
        length new = length xs \<and> distinct (map executionId new) \<and>
        (\<forall>i<length xs.
           executionId (new ! i) =
             executionId (context_of ''run'' (JArr [launch_article, JNull])) @ ''-'' @
             node_id (e2e_nodes ! 0) @ ''-'' @ show_nat i \<and>
           data (new ! i) = xs ! i \<and>
           map_of (metadata (new ! i)) =
             (map_of (metadata (context_of ''run'' (JArr [launch_article, JNull]))))
               (node_type (e2e_nodes ! 0) @ ''_'' @ node_id (e2e_nodes ! 0) \<mapsto> xs ! i))"
    by blast
  from arr have "length new = 2" "distinct (map executionId new)"
    "executionId (new ! 1) = ''run-t-1''" "data (new ! 1) = JNull"
    "map_of (metadata (new ! 1)) = [''trigger_t'' \<mapsto> JNull]"
    by (simp_all add: one e2e_nodes_def context_of_def)
  with new show ?thesis by blast
qed

text \<open>
  C4. When the node executor raises for one context of a generation, the next generation
  is what the contexts before it contribute followed by what the contexts after it
  contribute: the failing context contributes nothing and the others are processed as
  usual. The error does not reach the caller: every run that got its record and its
  node order returns the record as completed, and its one update of the record writes
  the status completed.
\<close>

theorem partial_failure_isolated:
  assumes fail: "executeNode env node context st1 = (Inl e, st2)"
    and pre: "process_contexts env node pre [] st = (out1, st1)"
    and post: "process_contexts env node post [] st2 = (out2, st3)"
  shows "process_contexts env node (pre @ context # post) [] st = (out1 @ out2, st3) \<and>
     (\<forall>workflowId nodes sortedNodes triggerData s execution s1.
        create_execution env workflowId s = (Inr execution, s1) \<and>
        topologicalSort nodes = Some (Inr sortedNodes) \<longrightarrow>
        (\<exists>s' upd.
           executeWorkflow env workflowId nodes triggerData s =
             Some (Inr [execution\<lparr>status := Completed\<rparr>], s') \<and>
           store_log s' = store_log s1 @ [Update (exec_id execution) upd] \<and>
           f_status upd = Some Completed))"
proof -
  from fail post have "process_contexts env node (context # post) [] st1 = (out2, st3)" by simp
  from process_contexts_append[OF pre this]
  have gen: "process_contexts env node (pre @ context # post) [] st = (out1 @ out2, st3)" .
  have run: "\<forall>workflowId nodes sortedNodes triggerData s execution s1.
        create_execution env workflowId s = (Inr execution, s1) \<and>
        topologicalSort nodes = Some (Inr sortedNodes) \<longrightarrow>
        (\<exists>s' upd.
           executeWorkflow env workflowId nodes triggerData s =
             Some (Inr [execution\<lparr>status := Completed\<rparr>], s') \<and>
           store_log s' = store_log s1 @ [Update (exec_id execution) upd] \<and>
           f_status upd = Some Completed)"
  proof (intro allI impI, elim conjE)
    fix workflowId nodes sortedNodes triggerData s execution s1
    assume c: "create_execution env workflowId s = (Inr execution, s1)"
      and t: "topologicalSort nodes = Some (Inr sortedNodes)"
    obtain final s2 where r: "run_nodes env sortedNodes (initial_contexts execution triggerData) s1 = (final, s2)"
      by (cases "run_nodes env sortedNodes (initial_contexts execution triggerData) s1")
    from executeWorkflow_sorted[OF c t r] run_nodes_frame[OF r]
    show "\<exists>s' upd.
           executeWorkflow env workflowId nodes triggerData s =
             Some (Inr [execution\<lparr>status := Completed\<rparr>], s') \<and>
           store_log s' = store_log s1 @ [Update (exec_id execution) upd] \<and>
           f_status upd = Some Completed"
      by (simp add: store_update_log)
  qed
  from gen run show ?thesis by blast
qed

theorem partial_failure_isolated_witness:
  "\<exists>out1 out2.
     executeNode stub_env (e2e_nodes ! 2) (context_of ''run-1'' JNull) st0 = (Inl TypeError, st0) \<and>
     process_contexts stub_env (e2e_nodes ! 2) [context_of ''run-0'' launch_article] [] st0 = (out1, st0) \<and>
     process_contexts stub_env (e2e_nodes ! 2)
       [context_of ''run-2'' (JObj [(''content'', JStr ''A LAUNCH party'')])] [] st0 = (out2, st0) \<and>
     process_contexts stub_env (e2e_nodes ! 2)
       ([context_of ''run-0'' launch_article] @ context_of ''run-1'' JNull #
        [context_of ''run-2'' (JObj [(''content'', JStr ''A LAUNCH party'')])]) [] st0
       = (out1 @ out2, st0) \<and>
     map data (out1 @ out2) = [launch_article, JObj [(''content'', JStr ''A LAUNCH party'')]] \<and>
     (\<exists>s' upd. executeWorkflow stub_env ''wf'' isolation_nodes isolation_data st0 =
         Some (Inr [run_record\<lparr>status := Completed\<rparr>], s') \<and>
       store_log s' = store_log (snd (create_execution stub_env ''wf'' st0)) @ [Update (exec_id run_record) upd] \<and>
       f_status upd = Some Completed)"
proof -
  let ?f = "e2e_nodes ! 2"
  let ?c1 = "context_of ''run-0'' launch_article"
  let ?c2 = "context_of ''run-1'' JNull"
  let ?c3 = "context_of ''run-2'' (JObj [(''content'', JStr ''A LAUNCH party'')])"
  have f1: "fst (executeNode stub_env ?f ?c2 st0) = Inl TypeError" by code_simp
  have f2: "snd (executeNode stub_env ?f ?c2 st0) = st0"
    by (simp add: executeNode_def e2e_nodes_def)
  from f1 f2 have fail: "executeNode stub_env ?f ?c2 st0 = (Inl TypeError, st0)"
    by (simp add: prod_eq_iff)
  have p2: "snd (process_contexts stub_env ?f [?c1] [] st0) = st0"
    by (simp add: executeNode_def e2e_nodes_def split: prod.splits sum.splits)
  then have pre: "process_contexts stub_env ?f [?c1] [] st0 =
      (fst (process_contexts stub_env ?f [?c1] [] st0), st0)"
    by (simp add: prod_eq_iff)
  have q2: "snd (process_contexts stub_env ?f [?c3] [] st0) = st0"
    by (simp add: executeNode_def e2e_nodes_def split: prod.splits sum.splits)
  then have post: "process_contexts stub_env ?f [?c3] [] st0 =
      (fst (process_contexts stub_env ?f [?c3] [] st0), st0)"
    by (simp add: prod_eq_iff)
  have d: "map data (fst (process_contexts stub_env ?f [?c1] [] st0) @
      fst (process_contexts stub_env ?f [?c3] [] st0)) =
      [launch_article, JObj [(''content'', JStr ''A LAUNCH party'')]]"
    by code_simp
  have srt: "topologicalSort isolation_nodes = Some (Inr isolation_nodes)" by code_simp
  from partial_failure_isolated[OF fail pre post] create_stub srt
  have gen: "process_contexts stub_env ?f ([?c1] @ ?c2 # [?c3]) [] st0 =
      (fst (process_contexts stub_env ?f [?c1] [] st0) @
       fst (process_contexts stub_env ?f [?c3] [] st0), st0)"
    and run: "\<exists>s' upd. executeWorkflow stub_env ''wf'' isolation_nodes isolation_data st0 =
         Some (Inr [run_record\<lparr>status := Completed\<rparr>], s') \<and>
       store_log s' = store_log (snd (create_execution stub_env ''wf'' st0)) @ [Update (exec_id run_record) upd] \<and>
       f_status upd = Some Completed"
    by blast+
  show ?thesis
    by (intro exI[of _ "fst (process_contexts stub_env ?f [?c1] [] st0)"]
          exI[of _ "fst (process_contexts stub_env ?f [?c3] [] st0)"] conjI)
       (rule fail pre post gen d run)+
qed

text \<open>
  C5. For every node list with a trigger node from which a cycle can be reached, the sort
  fails with the error "Circular dependency detected in workflow". The \<^verbatim>\<open>try\<close> block of
  the run then raises that error with the state it was handed: the statement that builds
  the root context is not reached and no node is executed, so no context is created. The
  run raises, issues no remote call, and its outcome does not depend on the trigger data.
\<close>

theorem cycle_aborts_run:
  assumes t: "t \<in> set nodes" "node_type t = ''trigger''"
    and reach: "(node_id t, c) \<in> (edges nodes)\<^sup>*"
    and cyc: "(c, c) \<in> (edges nodes)\<^sup>+"
  shows "topologicalSort nodes = Some (Inl circular) \<and>
     try_block env nodes triggerData execution st = Some (Inl circular, st) \<and>
     (\<exists>e st'. executeWorkflow env workflowId nodes triggerData st = Some (Inl e, st') \<and>
        calls st' = calls st) \<and>
     executeWorkflow env workflowId nodes triggerData st =
       executeWorkflow env workflowId nodes otherData st"
proof -
  from topologicalSort_cycle[OF t reach cyc]
  have srt: "topologicalSort nodes = Some (Inl circular)" .
  then have tb: "\<And>d ex s. try_block env nodes d ex s = Some (Inl circular, s)"
    by (simp add: try_block_def)
  obtain r st1 where c: "create_execution env workflowId st = (r, st1)"
    by (cases "create_execution env workflowId st")
  from create_execution_log[OF c] have cl: "calls st1 = calls st" by blast
  have run: "\<exists>e st'. executeWorkflow env workflowId nodes triggerData st = Some (Inl e, st') \<and>
        calls st' = calls st"
  proof (cases r)
    case (Inl e)
    with c cl executeWorkflow_insert_error[of env workflowId st e st1 nodes triggerData]
    show ?thesis by simp
  next
    case (Inr execution)
    with c cl executeWorkflow_sort_error[of env workflowId st execution st1 nodes circular triggerData] srt
    show ?thesis by (simp add: store_update_log)
  qed
  have indep: "executeWorkflow env workflowId nodes triggerData st =
       executeWorkflow env workflowId nodes otherData st"
    using tb by (simp add: executeWorkflow_def split: prod.splits sum.splits)
  from srt tb[of triggerData execution st] run indep show ?thesis by blast
qed

theorem cycle_aborts_run_witness:
  "cyclic_nodes ! 0 \<in> set cyclic_nodes \<and> node_type (cyclic_nodes ! 0) = ''trigger'' \<and>
   (node_id (cyclic_nodes ! 0), ''a'') \<in> (edges cyclic_nodes)\<^sup>* \<and>
   (''a'', ''a'') \<in> (edges cyclic_nodes)\<^sup>+ \<and>
   topologicalSort cyclic_nodes = Some (Inl circular) \<and>
   try_block stub_env cyclic_nodes launch_article run_record st0 = Some (Inl circular, st0) \<and>
   (\<exists>e st'. executeWorkflow stub_env ''wf'' cyclic_nodes launch_article st0 = Some (Inl e, st') \<and>
      calls st' = calls st0)"
proof -
  have a: "cyclic_nodes ! 0 \<in> set cyclic_nodes" "node_type (cyclic_nodes ! 0) = ''trigger''"
    by (simp_all add: cyclic_nodes_def)
  have "node_id (cyclic_nodes ! 0) = ''t''" by (simp add: cyclic_nodes_def)
  with cyclic_edges(1) have b: "(node_id (cyclic_nodes ! 0), ''a'') \<in> (edges cyclic_nodes)\<^sup>*"
    by simp
  from cyclic_edges(2,3) have c: "(''a'', ''a'') \<in> (edges cyclic_nodes)\<^sup>+"
    by (meson trancl.simps)
  from cycle_aborts_run[OF a b c, of stub_env launch_article run_record st0 "''wf''"] a b c
  show ?thesis by blast
qed

text \<open>
  C6. The claim: when the sort raises the cycle error during a run, the run aborts
  without the execution record being updated to the status failed. The code does update
  the record: the sort is called inside the \<^verbatim>\<open>try\<close> block, whose \<^verbatim>\<open>catch\<close> writes the
  status failed. On the cyclic example the two writes carry the statuses running and
  failed.
\<close>

theorem cycle_not_recorded_counterexample:
  "topologicalSort cyclic_nodes = Some (Inl circular) \<and>
   map_option (\<lambda>(r, s). (r, map written_status (store_log s)))
     (executeWorkflow stub_env ''wf'' cyclic_nodes JUndefined st0) =
     Some (Inl circular, [Some Running, Some Failed])"
  by code_simp

text \<open>
  C6, as amended. When the sort raises an error during a run whose record was created,
  the error is the cycle error; no remote call is made; the record is updated exactly
  once, to the status failed, with a completion time and the error message "Circular
  dependency detected in workflow"; and the error is raised again to the caller.
\<close>

theorem cycle_recorded_failed:
  assumes create: "create_execution env workflowId st = (Inr execution, st1)"
    and sort: "topologicalSort nodes = Some (Inl e)"
  shows "e = circular \<and>
     (\<exists>st' upd. executeWorkflow env workflowId nodes triggerData st = Some (Inl e, st') \<and>
        store_log st' = store_log st1 @ [Update (exec_id execution) upd] \<and>
        f_status upd = Some Failed \<and> f_completed_at upd \<noteq> None \<and>
        f_error_message upd = Some ''Circular dependency detected in workflow'' \<and>
        calls st' = calls st1)"
proof -
  from topologicalSort_error[OF sort] have e: "e = circular" .
  from executeWorkflow_sort_error[OF create sort] e show ?thesis
    by (simp add: store_update_log message_of_def circular_def)
qed

theorem cycle_recorded_failed_witness:
  "\<exists>st' upd. executeWorkflow stub_env ''wf'' cyclic_nodes JUndefined st0 = Some (Inl circular, st') \<and>
        store_log st' = store_log (snd (create_execution stub_env ''wf'' st0)) @ [Update (exec_id run_record) upd] \<and>
        f_status upd = Some Failed \<and> f_completed_at upd \<noteq> None \<and>
        f_error_message upd = Some ''Circular dependency detected in workflow'' \<and>
        calls st' = calls (snd (create_execution stub_env ''wf'' st0))"
proof -
  have srt: "topologicalSort cyclic_nodes = Some (Inl circular)" by code_simp
  from cycle_recorded_failed[OF create_stub srt] show ?thesis by blast
qed




text \<open>
  C8. In every run whose insert succeeds, the writes to the execution record are exactly
  two: the insert, with the status running and no completion time, and one update of
  that record, with the status completed or failed and with a completion time. Nothing
  is written after the terminal update.
\<close>

theorem record_lifecycle:
  assumes create: "create_execution env workflowId st = (Inr execution, st1)"
  shows "\<exists>r st' flds upd.
     executeWorkflow env workflowId nodes triggerData st = Some (r, st') \<and>
     store_log st' = store_log st @ [Insert flds, Update (exec_id execution) upd] \<and>
     f_status flds = Some Running \<and> f_completed_at flds = None \<and>
     (f_status upd = Some Completed \<or> f_status upd = Some Failed) \<and>
     f_completed_at upd \<noteq> None"
proof -
  from create_execution_log[OF create] obtain flds where
    flds: "store_log st1 = store_log st @ [Insert flds]" "f_status flds = Some Running"
      "f_completed_at flds = None" by blast
  from topologicalSort_total[of nodes] obtain res where res: "topologicalSort nodes = Some res"
    by auto
  show ?thesis
  proof (cases res)
    case (Inl e)
    from executeWorkflow_sort_error[OF create res[unfolded Inl]] flds show ?thesis
      by (simp add: store_update_log)
  next
    case (Inr sortedNodes)
    obtain final st2 where r: "run_nodes env sortedNodes (initial_contexts execution triggerData) st1 = (final, st2)"
      by (cases "run_nodes env sortedNodes (initial_contexts execution triggerData) st1")
    from executeWorkflow_sorted[OF create res[unfolded Inr] r] run_nodes_frame[OF r] flds
    show ?thesis by (simp add: store_update_log)
  qed
qed

theorem record_lifecycle_witness:
  "\<exists>r st' flds upd.
     executeWorkflow stub_env ''wf'' e2e_nodes JUndefined st0 = Some (r, st') \<and>
     store_log st' = store_log st0 @ [Insert flds, Update (exec_id run_record) upd] \<and>
     f_status flds = Some Running \<and> f_completed_at flds = None \<and>
     (f_status upd = Some Completed \<or> f_status upd = Some Failed) \<and>
     f_completed_at upd \<noteq> None"
  using record_lifecycle[OF create_stub] by blast

text \<open>
  C9. When, in a run that got its record and its node order, the generation after some
  node is empty, the nodes after it are skipped and the run ends normally: it returns
  the record as completed, and from the state after that node nothing happens but one
  write, the update of the run's record, which carries the status completed, a completion
  time, no error message, and the result summary with the final context count \<open>0\<close> and the
  empty list of final payloads. No remote call is made after that node.
\<close>

theorem empty_generation_completes:
  assumes create: "create_execution env workflowId st = (Inr execution, st1)"
    and sort: "topologicalSort nodes = Some (Inr (pre @ node # rest))"
    and before: "run_nodes env pre (initial_contexts execution triggerData) st1 = (ctxs, st2)"
    and live: "ctxs \<noteq> []"
    and empty: "process_contexts env node ctxs [] st2 = ([], st3)"
  shows "\<exists>s' upd.
     executeWorkflow env workflowId nodes triggerData st =
       Some (Inr [execution\<lparr>status := Completed\<rparr>], s') \<and>
     store_log s' = store_log st3 @ [Update (exec_id execution) upd] \<and>
     store_log st3 = store_log st1 \<and>
     calls s' = calls st3 \<and>
     world s' = db_update env (exec_id execution) upd (world st3) \<and>
     f_status upd = Some Completed \<and>
     f_completed_at upd = Some (toISOString env (now env (world st3))) \<and>
     f_result upd = Some (JObj [(''contexts'', JNum 0), (''final_results'', JArr [])]) \<and>
     f_error_message upd = None"
proof -
  let ?upd = "no_fields\<lparr>f_status := Some Completed,
      f_completed_at := Some (toISOString env (now env (world st3))),
      f_result := Some (JObj [(''contexts'', JNum 0), (''final_results'', JArr [])])\<rparr>"
  from empty have "run_nodes env (node # rest) ctxs st2 = ([], st3)" by simp
  with run_nodes_append[OF before live, of "node # rest"]
  have run: "run_nodes env (pre @ node # rest) (initial_contexts execution triggerData) st1 = ([], st3)"
    by simp
  from executeWorkflow_sorted[OF create sort run]
  have res: "executeWorkflow env workflowId nodes triggerData st =
      Some (Inr [execution\<lparr>status := Completed\<rparr>], store_update env (exec_id execution) ?upd st3)"
    by simp
  have log: "store_log (store_update env (exec_id execution) ?upd st3) =
      store_log st3 @ [Update (exec_id execution) ?upd]"
    and cl: "calls (store_update env (exec_id execution) ?upd st3) = calls st3"
    by (simp_all add: store_update_log)
  have w: "world (store_update env (exec_id execution) ?upd st3) =
      db_update env (exec_id execution) ?upd (world st3)"
    by (simp add: store_update_def)
  have frame: "store_log st3 = store_log st1" by (rule run_nodes_frame[OF run])
  have flds: "f_status ?upd = Some Completed"
    "f_completed_at ?upd = Some (toISOString env (now env (world st3)))"
    "f_result ?upd = Some (JObj [(''contexts'', JNum 0), (''final_results'', JArr [])])"
    "f_error_message ?upd = None"
    by (simp_all add: no_fields_def)
  show ?thesis
    by (intro exI[of _ "store_update env (exec_id execution) ?upd st3"] exI[of _ ?upd] conjI)
       (rule res log frame cl w flds)+
qed

theorem empty_generation_completes_witness:
  "\<exists>st1 ctxs st2 st3 s' upd.
     create_execution stub_env ''wf'' st0 = (Inr run_record, st1) \<and>
     topologicalSort e2e_nodes = Some (Inr ([e2e_nodes ! 3] @ e2e_nodes ! 2 # [e2e_nodes ! 1, e2e_nodes ! 0])) \<and>
     run_nodes stub_env [e2e_nodes ! 3] (initial_contexts run_record JUndefined) st1 = (ctxs, st2) \<and>
     ctxs \<noteq> [] \<and>
     process_contexts stub_env (e2e_nodes ! 2) ctxs [] st2 = ([], st3) \<and>
     executeWorkflow stub_env ''wf'' e2e_nodes JUndefined st0 =
       Some (Inr [run_record\<lparr>status := Completed\<rparr>], s') \<and>
     store_log s' = store_log st3 @ [Update (exec_id run_record) upd] \<and>
     calls s' = calls st3 \<and>
     f_status upd = Some Completed \<and>
     f_result upd = Some (JObj [(''contexts'', JNum 0), (''final_results'', JArr [])])"
proof -
  let ?st1 = "snd (create_execution stub_env ''wf'' st0)"
  let ?run = "run_nodes stub_env [e2e_nodes ! 3] (initial_contexts run_record JUndefined) ?st1"
  let ?proc = "process_contexts stub_env (e2e_nodes ! 2) (fst ?run) [] (snd ?run)"
  have srt: "topologicalSort e2e_nodes =
      Some (Inr ([e2e_nodes ! 3] @ e2e_nodes ! 2 # [e2e_nodes ! 1, e2e_nodes ! 0]))"
    by code_simp
  have before: "?run = (fst ?run, snd ?run)" by simp
  have live: "fst ?run \<noteq> []" by code_simp
  have "fst ?proc = []" by code_simp
  then have empty: "?proc = ([], snd ?proc)" by (simp add: prod_eq_iff)
  from empty_generation_completes[OF create_stub srt before live empty]
  obtain s' upd where
    "executeWorkflow stub_env ''wf'' e2e_nodes JUndefined st0 =
       Some (Inr [run_record\<lparr>status := Completed\<rparr>], s')"
    "store_log s' = store_log (snd ?proc) @ [Update (exec_id run_record) upd]"
    "calls s' = calls (snd ?proc)"
    "f_status upd = Some Completed"
    "f_result upd = Some (JObj [(''contexts'', JNum 0), (''final_results'', JArr [])])"
    by blast
  with create_stub srt before live empty show ?thesis by blast
qed



end
